theory Spec2Isabelle
  imports Main "HOL-Library.Word"
begin

section \<open>tiny\_vfs: virtual paths, the mount table and the overlay engine\<close>

text \<open>
  A shallow embedding of \<^verbatim>\<open>tiny_vfs.h\<close>. Strings are byte lists, the mount
  table is a list in mount order (the newest mount last), and the outcome enumeration of
  the header is a datatype.
\<close>

datatype Result = ok | not_found | io_error | not_supported | invalid_path

type_synonym Blob = "8 word list"

subsection \<open>The part of \<^verbatim>\<open>std::filesystem::path\<close> that the normalizer uses\<close>

text \<open>
  \<^verbatim>\<open>fs::path\<close> belongs to the C++ standard library, not to this repository. It is
  modelled after the generic pathname grammar and the normalization algorithm of ISO C++17
  [fs.path.generic]. What the standard leaves to the implementation, the separators and the
  root names, is given for two platforms: \<open>Posix\<close> (one separator \<^verbatim>\<open>/\<close>, no
  root names, as in libstdc++ and libc++ on Linux), and \<open>Windows\<close> (the library of MSVC,
  the toolchain of \<^verbatim>\<open>build_and_test.bat\<close>: separators \<^verbatim>\<open>/\<close> and backslash,
  root names \<^verbatim>\<open>X:\<close>, \<^verbatim>\<open>\\server\<close>, \<^verbatim>\<open>\\?\<close>, \<^verbatim>\<open>\\.\<close> and
  \<^verbatim>\<open>\??\<close>). A path is kept as its string and parsed on demand, as the library does.
  The conversion between narrow and wide characters on Windows is taken to be the identity,
  which it is on ASCII.
\<close>

datatype platform = Posix | Windows

definition backslash :: char where
  "backslash = CHR 0x5C"

definition is_slash :: "platform \<Rightarrow> char \<Rightarrow> bool" where
  "is_slash pf c = (c = CHR ''/'' \<or> (pf = Windows \<and> c = backslash))"

definition preferred_separator :: "platform \<Rightarrow> char" where
  "preferred_separator pf = (case pf of Posix \<Rightarrow> CHR ''/'' | Windows \<Rightarrow> backslash)"

definition is_drive_letter :: "char \<Rightarrow> bool" where
  "is_drive_letter c =
     ((65 \<le> (of_char c :: nat) \<and> (of_char c :: nat) \<le> 90) \<or>
      (97 \<le> (of_char c :: nat) \<and> (of_char c :: nat) \<le> 122))"

definition has_drive_letter_prefix :: "string \<Rightarrow> bool" where
  "has_drive_letter_prefix s =
     (case s of c # d # _ \<Rightarrow> is_drive_letter c \<and> d = CHR '':'' | _ \<Rightarrow> False)"

text \<open>
  The length of the root name at the start of a path string. On Windows: a drive prefix
  \<^verbatim>\<open>X:\<close>; else nothing unless the string starts with a separator; then the three
  characters of \<^verbatim>\<open>\\?\<close>, \<^verbatim>\<open>\\.\<close> or \<^verbatim>\<open>\??\<close> when a separator and then
  a non-separator or the end follow; then \<^verbatim>\<open>\\server\<close> up to the next separator.
\<close>

definition root_name_end :: "platform \<Rightarrow> string \<Rightarrow> nat" where
  "root_name_end pf s =
     (case pf of
        Posix \<Rightarrow> 0
      | Windows \<Rightarrow>
          if length s < 2 then 0
          else if has_drive_letter_prefix s then 2
          else if \<not> is_slash Windows (s ! 0) then 0
          else if 4 \<le> length s \<and> is_slash Windows (s ! 3)
                  \<and> (length s = 4 \<or> \<not> is_slash Windows (s ! 4))
                  \<and> ((is_slash Windows (s ! 1) \<and> (s ! 2 = CHR ''?'' \<or> s ! 2 = CHR ''.''))
                       \<or> (s ! 1 = CHR ''?'' \<and> s ! 2 = CHR ''?''))
          then 3
          else if 3 \<le> length s \<and> is_slash Windows (s ! 1) \<and> \<not> is_slash Windows (s ! 2)
          then 3 + length (takeWhile (\<lambda>c. \<not> is_slash Windows c) (drop 3 s))
          else 0)"

definition has_root_name :: "platform \<Rightarrow> string \<Rightarrow> bool" where
  "has_root_name pf s = (0 < root_name_end pf s)"

text \<open>
  After the root name a path is a sequence of directory separators (each one or more
  separator characters) and filenames (each one or more other characters).
\<close>

datatype token = Sep | Name string

fun tokenize :: "platform \<Rightarrow> string \<Rightarrow> token list" where
  "tokenize pf [] = []"
| "tokenize pf (c # cs) =
     (if is_slash pf c
      then (case tokenize pf cs of Sep # ts \<Rightarrow> Sep # ts | ts \<Rightarrow> Sep # ts)
      else (case tokenize pf cs of Name n # ts \<Rightarrow> Name (c # n) # ts | ts \<Rightarrow> Name [c] # ts))"

fun flatten :: "char \<Rightarrow> token list \<Rightarrow> string" where
  "flatten sep [] = []"
| "flatten sep (Sep # ts) = sep # flatten sep ts"
| "flatten sep (Name n # ts) = n @ flatten sep ts"

fun skip_sep :: "token list \<Rightarrow> token list" where
  "skip_sep (Sep # ts) = ts"
| "skip_sep ts = ts"

text \<open>
  Steps 4 and 6 remove every filename of one kind (dot in step 4, dot-dot in step 6) and any
  directory separator immediately following it.
\<close>

fun remove_filename :: "string \<Rightarrow> token list \<Rightarrow> token list" where
  "remove_filename d [] = []"
| "remove_filename d (Sep # ts) = Sep # remove_filename d ts"
| "remove_filename d (Name n # Sep # ts) =
     (if n = d then remove_filename d ts else Name n # Sep # remove_filename d ts)"
| "remove_filename d (Name n # ts) =
     (if n = d then remove_filename d ts else Name n # remove_filename d ts)"

text \<open>Step 4: remove each dot filename and any immediately following directory separator.\<close>

definition remove_dot :: "token list \<Rightarrow> token list" where
  "remove_dot ts = remove_filename ''.'' ts"

text \<open>
  Step 5: as long as any appear, remove a non-dot-dot filename immediately followed by a
  directory separator and a dot-dot filename, along with any immediately following
  directory separator. One pass from the left with the tokens kept so far (newest first)
  does it: a dot-dot cancels the filename kept just before it.
\<close>

function remove_dir_dotdot :: "token list \<Rightarrow> token list \<Rightarrow> token list" where
  "remove_dir_dotdot kept [] = rev kept"
| "remove_dir_dotdot kept (Sep # ts) = remove_dir_dotdot (Sep # kept) ts"
| "remove_dir_dotdot kept (Name n # ts) =
     (case kept of
        Sep # Name m # kept' \<Rightarrow>
          if n = ''..'' \<and> m \<noteq> ''..'' then remove_dir_dotdot kept' (skip_sep ts)
          else remove_dir_dotdot (Name n # kept) ts
      | _ \<Rightarrow> remove_dir_dotdot (Name n # kept) ts)"
  by pat_completeness auto

lemma length_skip_sep: "length (skip_sep ts) \<le> length ts"
  by (cases ts rule: skip_sep.cases) auto

termination remove_dir_dotdot
  by (relation "measure (\<lambda>(kept, ts). length ts)")
     (auto simp: length_skip_sep le_imp_less_Suc)

text \<open>
  Step 6: if there is a root directory, remove all dot-dot filenames and any directory
  separators immediately following them.
\<close>

definition remove_dotdot :: "token list \<Rightarrow> token list" where
  "remove_dotdot ts = remove_filename ''..'' ts"

definition remove_root_dotdot :: "token list \<Rightarrow> token list" where
  "remove_root_dotdot ts = (case ts of Sep # _ \<Rightarrow> remove_dotdot ts | _ \<Rightarrow> ts)"

text \<open>Step 7: if the last filename is dot-dot, remove any trailing directory separator.\<close>

definition remove_trailing_sep :: "token list \<Rightarrow> token list" where
  "remove_trailing_sep ts =
     (case rev ts of
        Sep # Name n # _ \<Rightarrow> if n = ''..'' then butlast ts else ts
      | _ \<Rightarrow> ts)"

definition normal_tokens :: "token list \<Rightarrow> token list" where
  "normal_tokens ts =
     remove_trailing_sep (remove_root_dotdot (remove_dir_dotdot [] (remove_dot ts)))"

text \<open>
  \<^verbatim>\<open>path::lexically_normal\<close>: step 1 leaves the empty path alone, step 2 writes the
  root name with preferred separators, step 3 writes every directory separator as one
  preferred separator, step 8 turns an empty result into a dot.
\<close>

definition lexically_normal :: "platform \<Rightarrow> string \<Rightarrow> string" where
  "lexically_normal pf s =
     (if s = [] then []
      else
        let k = root_name_end pf s;
            root = map (\<lambda>c. if c = CHR ''/'' then preferred_separator pf else c) (take k s);
            r = root @ flatten (preferred_separator pf) (normal_tokens (tokenize pf (drop k s)))
        in if r = [] then ''.'' else r)"

text \<open>
  Iterating over a path yields the root name, the root directory and the filenames (and an
  empty filename after a trailing separator); only a filename can equal \<^verbatim>\<open>".."\<close>.
\<close>

definition has_dotdot_part :: "platform \<Rightarrow> string \<Rightarrow> bool" where
  "has_dotdot_part pf s = (Name ''..'' \<in> set (tokenize pf (drop (root_name_end pf s) s)))"

text \<open>\<^verbatim>\<open>path::generic_string\<close>: the path with \<^verbatim>\<open>/\<close> for every separator.\<close>

definition generic_string :: "platform \<Rightarrow> string \<Rightarrow> string" where
  "generic_string pf s = map (\<lambda>c. if is_slash pf c then CHR ''/'' else c) s"

subsection \<open>\<^verbatim>\<open>detail::normalize_virtual_path\<close>\<close>

text \<open>
  The C++ function returns a flag and writes the result through a reference; here the
  result is \<open>None\<close> for \<^verbatim>\<open>false\<close> and \<open>Some out\<close> for \<^verbatim>\<open>true\<close>.
\<close>

definition strip_slashes :: "string \<Rightarrow> string" where
  "strip_slashes s =
     rev (dropWhile (\<lambda>c. c = CHR ''/'') (rev (dropWhile (\<lambda>c. c = CHR ''/'') s)))"

definition normalize_virtual_path :: "platform \<Rightarrow> string \<Rightarrow> string option" where
  "normalize_virtual_path pf input =
     (if has_root_name pf input then None
      else
        let p = lexically_normal pf input in
        if has_dotdot_part pf p then None
        else
          let s = generic_string pf p in
          if s = ''.'' \<or> s = ''/'' then Some []
          else
            let s' = strip_slashes s in
            Some (if s' = ''.'' then [] else s'))"

subsection \<open>\<^verbatim>\<open>detail::relative_to_mount\<close> and \<^verbatim>\<open>detail::child_mount_name\<close>\<close>

definition relative_to_mount :: "string \<Rightarrow> string \<Rightarrow> string option" where
  "relative_to_mount full mnt =
     (if mnt = [] then Some full
      else if full = mnt then Some []
      else if length mnt < length full \<and> take (length mnt) full = mnt
              \<and> full ! length mnt = CHR ''/''
      then Some (drop (length mnt + 1) full)
      else None)"

text \<open>
  \<^verbatim>\<open>mount.substr(0, mount.find('/'))\<close> is the string up to the first slash, and the
  whole string when it has none.
\<close>

definition child_mount_name :: "string \<Rightarrow> string \<Rightarrow> string option" where
  "child_mount_name parent mnt =
     (if mnt = [] then None
      else if parent = [] then Some (takeWhile (\<lambda>c. c \<noteq> CHR ''/'') mnt)
      else if length mnt \<le> length parent then None
      else if take (length parent) mnt \<noteq> parent \<or> mnt ! length parent \<noteq> CHR ''/''
      then None
      else Some (takeWhile (\<lambda>c. c \<noteq> CHR ''/'') (drop (length parent + 1) mnt)))"

subsection \<open>Backends and the mount table\<close>

text \<open>
  A backend is an object behind the abstract class \<^verbatim>\<open>Backend\<close>; the engine only
  calls its six methods. It is a record of six functions over the state \<open>'w\<close> of the
  storage behind the backends: the queries read that state, \<^verbatim>\<open>write_file\<close>
  returns the new one. An enumeration returns its outcome and the names it has passed to
  the callback, in order.
\<close>

record 'w Backend =
  be_exists_file :: "string \<Rightarrow> 'w \<Rightarrow> bool"
  be_exists_dir :: "string \<Rightarrow> 'w \<Rightarrow> bool"
  be_read_file :: "string \<Rightarrow> 'w \<Rightarrow> Blob option"
  be_write_file :: "string \<Rightarrow> Blob \<Rightarrow> 'w \<Rightarrow> Result \<times> 'w"
  be_list_files :: "string \<Rightarrow> string list \<Rightarrow> bool \<Rightarrow> 'w \<Rightarrow> Result \<times> string list"
  be_list_dirs :: "string \<Rightarrow> bool \<Rightarrow> 'w \<Rightarrow> Result \<times> string list"

record 'w MountPoint =
  mount :: string
  backend :: "'w Backend"

record 'w Vfs =
  mounts :: "'w MountPoint list"

subsection \<open>\<^verbatim>\<open>Vfs::mount\<close> and \<^verbatim>\<open>Vfs::unmount\<close>\<close>

text \<open>
  The shared pointer to the backend may be null: the argument is an option. Both functions
  return their flag and the engine after the call.
\<close>

definition Vfs_mount ::
  "platform \<Rightarrow> 'w Vfs \<Rightarrow> string \<Rightarrow> 'w Backend option \<Rightarrow> bool \<times> 'w Vfs" where
  "Vfs_mount pf vfs path b =
     (case b of
        None \<Rightarrow> (False, vfs)
      | Some be \<Rightarrow>
          (case normalize_virtual_path pf path of
             None \<Rightarrow> (False, vfs)
           | Some normalized \<Rightarrow>
               (True, vfs\<lparr>mounts := mounts vfs @ [\<lparr>mount = normalized, backend = be\<rparr>]\<rparr>)))"

definition erase :: "nat \<Rightarrow> 'a list \<Rightarrow> 'a list" where
  "erase i xs = take i xs @ drop (Suc i) xs"

function unmount_loop ::
  "string \<Rightarrow> nat \<Rightarrow> 'w MountPoint list \<Rightarrow> bool \<Rightarrow> bool \<times> 'w MountPoint list" where
  "unmount_loop normalized i ms removed =
     (if i < length ms
      then (if mount (ms ! i) = normalized
            then unmount_loop normalized i (erase i ms) True
            else unmount_loop normalized (i + 1) ms removed)
      else (removed, ms))"
  by pat_completeness auto
termination
  by (relation "measure (\<lambda>(normalized, i, ms, removed). length ms - i)")
     (auto simp: erase_def)

definition Vfs_unmount :: "platform \<Rightarrow> 'w Vfs \<Rightarrow> string \<Rightarrow> bool \<times> 'w Vfs" where
  "Vfs_unmount pf vfs path =
     (case normalize_virtual_path pf path of
        None \<Rightarrow> (False, vfs)
      | Some normalized \<Rightarrow>
          (case unmount_loop normalized 0 (mounts vfs) False of
             (removed, ms) \<Rightarrow> (removed, vfs\<lparr>mounts := ms\<rparr>)))"

subsection \<open>\<^verbatim>\<open>Vfs::exists_file\<close> and \<^verbatim>\<open>Vfs::exists_dir\<close>\<close>

text \<open>
  The loops over \<^verbatim>\<open>mounts_.rbegin() .. rend()\<close> are recursions over the reversed
  table.
\<close>

fun exists_file_loop :: "'w MountPoint list \<Rightarrow> string \<Rightarrow> 'w \<Rightarrow> bool" where
  "exists_file_loop [] normalized w = False"
| "exists_file_loop (m # ms) normalized w =
     (case relative_to_mount normalized (mount m) of
        None \<Rightarrow> exists_file_loop ms normalized w
      | Some relative \<Rightarrow>
          if be_exists_file (backend m) relative w then True
          else exists_file_loop ms normalized w)"

definition exists_file :: "platform \<Rightarrow> 'w Vfs \<Rightarrow> string \<Rightarrow> 'w \<Rightarrow> bool" where
  "exists_file pf vfs path w =
     (case normalize_virtual_path pf path of
        None \<Rightarrow> False
      | Some normalized \<Rightarrow> exists_file_loop (rev (mounts vfs)) normalized w)"

fun mount_prefix_loop :: "'w MountPoint list \<Rightarrow> string \<Rightarrow> bool" where
  "mount_prefix_loop [] normalized = False"
| "mount_prefix_loop (m # ms) normalized =
     (if mount m = normalized then True
      else if length normalized < length (mount m)
              \<and> take (length normalized) (mount m) = normalized
              \<and> mount m ! length normalized = CHR ''/''
      then True
      else mount_prefix_loop ms normalized)"

fun exists_dir_loop :: "'w MountPoint list \<Rightarrow> string \<Rightarrow> 'w \<Rightarrow> bool" where
  "exists_dir_loop [] normalized w = False"
| "exists_dir_loop (m # ms) normalized w =
     (case relative_to_mount normalized (mount m) of
        None \<Rightarrow> exists_dir_loop ms normalized w
      | Some relative \<Rightarrow>
          if be_exists_dir (backend m) relative w then True
          else exists_dir_loop ms normalized w)"

definition exists_dir :: "platform \<Rightarrow> 'w Vfs \<Rightarrow> string \<Rightarrow> 'w \<Rightarrow> bool" where
  "exists_dir pf vfs path w =
     (case normalize_virtual_path pf path of
        None \<Rightarrow> False
      | Some normalized \<Rightarrow>
          if normalized = [] then mounts vfs \<noteq> []
          else if mount_prefix_loop (mounts vfs) normalized then True
          else exists_dir_loop (rev (mounts vfs)) normalized w)"

subsection \<open>\<^verbatim>\<open>Vfs::read_file\<close> and \<^verbatim>\<open>Vfs::write_file\<close>\<close>

fun read_file_loop :: "'w MountPoint list \<Rightarrow> string \<Rightarrow> 'w \<Rightarrow> Blob option" where
  "read_file_loop [] normalized w = None"
| "read_file_loop (m # ms) normalized w =
     (case relative_to_mount normalized (mount m) of
        None \<Rightarrow> read_file_loop ms normalized w
      | Some relative \<Rightarrow>
          (case be_read_file (backend m) relative w of
             Some data \<Rightarrow> Some data
           | None \<Rightarrow> read_file_loop ms normalized w))"

definition read_file :: "platform \<Rightarrow> 'w Vfs \<Rightarrow> string \<Rightarrow> 'w \<Rightarrow> Blob option" where
  "read_file pf vfs path w =
     (case normalize_virtual_path pf path of
        None \<Rightarrow> None
      | Some normalized \<Rightarrow> read_file_loop (rev (mounts vfs)) normalized w)"

text \<open>
  The loop of \<^verbatim>\<open>write_file\<close> carries \<^verbatim>\<open>matched\<close> and \<^verbatim>\<open>last_result\<close>; the
  storage state after a backend's write is the one the next backend sees.
\<close>

fun write_file_loop ::
  "'w MountPoint list \<Rightarrow> string \<Rightarrow> Blob \<Rightarrow> bool \<Rightarrow> Result \<Rightarrow> 'w \<Rightarrow> Result \<times> 'w" where
  "write_file_loop [] normalized data matched last_result w =
     (if \<not> matched then (not_found, w) else (last_result, w))"
| "write_file_loop (m # ms) normalized data matched last_result w =
     (case relative_to_mount normalized (mount m) of
        None \<Rightarrow> write_file_loop ms normalized data matched last_result w
      | Some relative \<Rightarrow>
          (case be_write_file (backend m) relative data w of
             (result, w') \<Rightarrow>
               if result = ok \<or> result = io_error then (result, w')
               else write_file_loop ms normalized data True
                      (if result \<noteq> not_supported then result else last_result) w'))"

definition write_file ::
  "platform \<Rightarrow> 'w Vfs \<Rightarrow> string \<Rightarrow> Blob \<Rightarrow> 'w \<Rightarrow> Result \<times> 'w" where
  "write_file pf vfs path data w =
     (case normalize_virtual_path pf path of
        None \<Rightarrow> (invalid_path, w)
      | Some normalized \<Rightarrow>
          write_file_loop (rev (mounts vfs)) normalized data False not_supported w)"

subsection \<open>\<^verbatim>\<open>Vfs::list_files\<close> and \<^verbatim>\<open>Vfs::list_dirs\<close>\<close>

text \<open>
  The closure \<^verbatim>\<open>emit\<close> owns the set \<^verbatim>\<open>seen\<close> and calls the caller's callback;
  its state here is that set and the list of names the callback has received so far.
\<close>

definition emit :: "bool \<Rightarrow> string \<Rightarrow> string set \<times> string list \<Rightarrow> string set \<times> string list" where
  "emit allow_duplicates name st =
     (case st of (seen, out) \<Rightarrow>
        if allow_duplicates then (seen, out @ [name])
        else if name \<notin> seen then (insert name seen, out @ [name])
        else (seen, out))"

fun list_files_loop ::
  "'w MountPoint list \<Rightarrow> string \<Rightarrow> string list \<Rightarrow> bool \<Rightarrow> bool
     \<Rightarrow> string set \<times> string list \<Rightarrow> 'w \<Rightarrow> Result \<times> string list" where
  "list_files_loop [] normalized extensions allow_duplicates matched st w =
     (if matched then ok else not_found, snd st)"
| "list_files_loop (m # ms) normalized extensions allow_duplicates matched st w =
     (case relative_to_mount normalized (mount m) of
        None \<Rightarrow> list_files_loop ms normalized extensions allow_duplicates matched st w
      | Some relative \<Rightarrow>
          (case be_list_files (backend m) relative extensions True w of
             (result, names) \<Rightarrow>
               let st' = fold (emit allow_duplicates) names st in
               if result = io_error then (io_error, snd st')
               else list_files_loop ms normalized extensions allow_duplicates True st' w))"

definition list_files ::
  "platform \<Rightarrow> 'w Vfs \<Rightarrow> string \<Rightarrow> string list \<Rightarrow> bool \<Rightarrow> 'w \<Rightarrow> Result \<times> string list" where
  "list_files pf vfs path extensions allow_duplicates w =
     (case normalize_virtual_path pf path of
        None \<Rightarrow> (invalid_path, [])
      | Some normalized \<Rightarrow>
          list_files_loop (rev (mounts vfs)) normalized extensions allow_duplicates
            False ({}, []) w)"

fun child_loop ::
  "'w MountPoint list \<Rightarrow> string \<Rightarrow> bool \<Rightarrow> string set \<times> string list
     \<Rightarrow> string set \<times> string list" where
  "child_loop [] normalized allow_duplicates st = st"
| "child_loop (m # ms) normalized allow_duplicates st =
     (case child_mount_name normalized (mount m) of
        Some child \<Rightarrow> child_loop ms normalized allow_duplicates (emit allow_duplicates child st)
      | None \<Rightarrow> child_loop ms normalized allow_duplicates st)"

fun list_dirs_loop ::
  "'w MountPoint list \<Rightarrow> string \<Rightarrow> bool \<Rightarrow> bool
     \<Rightarrow> string set \<times> string list \<Rightarrow> 'w \<Rightarrow> Result \<times> string list" where
  "list_dirs_loop [] normalized allow_duplicates matched st w =
     (if matched \<or> fst st \<noteq> {} then ok else not_found, snd st)"
| "list_dirs_loop (m # ms) normalized allow_duplicates matched st w =
     (case relative_to_mount normalized (mount m) of
        None \<Rightarrow> list_dirs_loop ms normalized allow_duplicates matched st w
      | Some relative \<Rightarrow>
          (case be_list_dirs (backend m) relative True w of
             (result, names) \<Rightarrow>
               let st' = fold (emit allow_duplicates) names st in
               if result = io_error then (io_error, snd st')
               else list_dirs_loop ms normalized allow_duplicates True st' w))"

definition list_dirs ::
  "platform \<Rightarrow> 'w Vfs \<Rightarrow> string \<Rightarrow> bool \<Rightarrow> 'w \<Rightarrow> Result \<times> string list" where
  "list_dirs pf vfs path allow_duplicates w =
     (case normalize_virtual_path pf path of
        None \<Rightarrow> (invalid_path, [])
      | Some normalized \<Rightarrow>
          list_dirs_loop (rev (mounts vfs)) normalized allow_duplicates False
            (child_loop (mounts vfs) normalized allow_duplicates ({}, [])) w)"

subsection \<open>Notions for stating the overlay rules\<close>

text \<open>
  What one mount serves for a normalized path: nothing when the path does not fall under
  the mount's prefix, else what its backend reads at the relative path.
\<close>

definition mount_read :: "string \<Rightarrow> 'w \<Rightarrow> 'w MountPoint \<Rightarrow> Blob option" where
  "mount_read normalized w m =
     (case relative_to_mount normalized (mount m) of
        None \<Rightarrow> None
      | Some relative \<Rightarrow> be_read_file (backend m) relative w)"

text \<open>
  The mounts of a list under which a normalized path falls, in the order of the list, each
  as its backend and the path relative to its prefix.
\<close>

definition matching_mounts :: "'w MountPoint list \<Rightarrow> string \<Rightarrow> ('w Backend \<times> string) list" where
  "matching_mounts ms normalized =
     List.map_filter
       (\<lambda>m. map_option (\<lambda>relative. (backend m, relative))
              (relative_to_mount normalized (mount m)))
       ms"

text \<open>
  Writing to every backend of a list in turn: the outcomes, and the storage state at the
  end.
\<close>

fun write_each :: "('w Backend \<times> string) list \<Rightarrow> Blob \<Rightarrow> 'w \<Rightarrow> Result list \<times> 'w" where
  "write_each [] data w = ([], w)"
| "write_each (c # cs) data w =
     (case be_write_file (fst c) (snd c) data w of
        (r, w') \<Rightarrow> (case write_each cs data w' of (rs, w'') \<Rightarrow> (r # rs, w'')))"

text \<open>
  The first occurrences of the elements of a list, in order; elements of \<open>S\<close> count as
  seen before.
\<close>

fun fresh :: "'a set \<Rightarrow> 'a list \<Rightarrow> 'a list" where
  "fresh S [] = []"
| "fresh S (x # xs) = (if x \<in> S then fresh S xs else x # fresh (insert x S) xs)"

definition first_occurrences :: "'a list \<Rightarrow> 'a list" where
  "first_occurrences xs = fresh {} xs"

text \<open>A list of listings cut after the first one whose outcome is \<open>io_error\<close>.\<close>

fun up_to_error :: "(Result \<times> 'a) list \<Rightarrow> (Result \<times> 'a) list" where
  "up_to_error [] = []"
| "up_to_error (x # xs) = (if fst x = io_error then [x] else x # up_to_error xs)"

text \<open>
  What the backends of the matching mounts of a list enumerate for a normalized path, in
  the order of the list: for each, its outcome and the names it hands to the callback. The
  engine always asks its backends for duplicates.
\<close>

definition file_listings ::
  "'w MountPoint list \<Rightarrow> string \<Rightarrow> string list \<Rightarrow> 'w \<Rightarrow> (Result \<times> string list) list" where
  "file_listings ms normalized extensions w =
     map (\<lambda>c. be_list_files (fst c) (snd c) extensions True w) (matching_mounts ms normalized)"

definition dir_listings ::
  "'w MountPoint list \<Rightarrow> string \<Rightarrow> 'w \<Rightarrow> (Result \<times> string list) list" where
  "dir_listings ms normalized w =
     map (\<lambda>c. be_list_dirs (fst c) (snd c) True w) (matching_mounts ms normalized)"

text \<open>The names that \<^verbatim>\<open>child_mount_name\<close> yields for the prefixes of a list of mounts.\<close>

definition child_mounts :: "'w MountPoint list \<Rightarrow> string \<Rightarrow> string list" where
  "child_mounts ms normalized = List.map_filter (\<lambda>m. child_mount_name normalized (mount m)) ms"

subsection \<open>Notions for stating what the normalizer rejects\<close>

text \<open>The filenames of a token list, in order.\<close>

fun names :: "token list \<Rightarrow> string list" where
  "names [] = []"
| "names (Sep # ts) = names ts"
| "names (Name n # ts) = n # names ts"

fun starts_with_sep :: "token list \<Rightarrow> bool" where
  "starts_with_sep (Sep # ts) = True"
| "starts_with_sep ts = False"

text \<open>In a token list made from a string, separators and filenames alternate.\<close>

definition alternating :: "token list \<Rightarrow> bool" where
  "alternating ts = successively (\<lambda>a b. (a = Sep) \<noteq> (b = Sep)) ts"

text \<open>\<^verbatim>\<open>path::has_root_directory\<close>: a separator right after the root name.\<close>

definition has_root_directory :: "platform \<Rightarrow> string \<Rightarrow> bool" where
  "has_root_directory pf s =
     (case drop (root_name_end pf s) s of [] \<Rightarrow> False | c # _ \<Rightarrow> is_slash pf c)"

text \<open>
  Walking the segments of a path from the virtual root: a dot stays, a dot-dot goes up one
  level, any other segment goes down one. \<open>climbs_above d segs\<close> says that the walk,
  begun \<open>d\<close> levels below the root, goes up from the root itself at some point. A path
  crosses above the root when its walk, begun at the root, does.
\<close>

fun climbs_above :: "nat \<Rightarrow> string list \<Rightarrow> bool" where
  "climbs_above d [] = False"
| "climbs_above d (seg # segs) =
     (if seg = ''..'' then (case d of 0 \<Rightarrow> True | Suc d' \<Rightarrow> climbs_above d' segs)
      else if seg = ''.'' then climbs_above d segs
      else climbs_above (Suc d) segs)"

definition crosses_above_root :: "platform \<Rightarrow> string \<Rightarrow> bool" where
  "crosses_above_root pf s = climbs_above 0 (names (tokenize pf (drop (root_name_end pf s) s)))"

subsection \<open>Notions for the proofs about the normalizer\<close>

text \<open>
  A token list is well formed for a platform when separators and filenames alternate and
  every filename is non-empty and free of separator characters, as in a tokenized string.
\<close>

definition wf_tokens :: "platform \<Rightarrow> token list \<Rightarrow> bool" where
  "wf_tokens pf ts =
     (alternating ts \<and> (\<forall>n \<in> set (names ts). n \<noteq> [] \<and> (\<forall>c \<in> set n. \<not> is_slash pf c)))"

text \<open>Every dot-dot of a list of filenames comes before every other filename.\<close>

fun dotdots_first :: "string list \<Rightarrow> bool" where
  "dotdots_first [] = True"
| "dotdots_first (n # ns) = (if n = ''..'' then dotdots_first ns else ''..'' \<notin> set ns)"

text \<open>
  The invariant of the pass of step 5 on a path without root directory: the tokens kept and
  the tokens to come alternate and do not begin with a separator, and among the filenames
  kept the dot-dots come first.
\<close>

definition dd_inv :: "token list \<Rightarrow> token list \<Rightarrow> bool" where
  "dd_inv kept ts =
     (alternating (rev kept @ ts) \<and> \<not> starts_with_sep (rev kept @ ts)
      \<and> dotdots_first (names (rev kept)))"

definition drop_last_sep :: "token list \<Rightarrow> token list" where
  "drop_last_sep ts = (if ts \<noteq> [] \<and> last ts = Sep then butlast ts else ts)"

text \<open>
  The tokens of a normalized virtual path: well formed, no separator at either end, no dot
  and no dot-dot.
\<close>

definition clean_tokens :: "platform \<Rightarrow> token list \<Rightarrow> bool" where
  "clean_tokens pf ts =
     (wf_tokens pf ts \<and> \<not> starts_with_sep ts \<and> (ts = [] \<or> last ts \<noteq> Sep)
      \<and> ''.'' \<notin> set (names ts) \<and> ''..'' \<notin> set (names ts))"

subsection \<open>Backends for concrete runs\<close>

text \<open>
  Two small backends in the manner of the repository's test: a read-only store with a
  fixed list of files and of subdirectories at its root, and a writable store whose files
  are the storage state itself.
\<close>

definition readonly_backend :: "(string \<times> Blob) list \<Rightarrow> string list \<Rightarrow> 'w Backend" where
  "readonly_backend files dirs =
     \<lparr> be_exists_file = (\<lambda>p w. map_of files p \<noteq> None),
       be_exists_dir = (\<lambda>p w. p = []),
       be_read_file = (\<lambda>p w. map_of files p),
       be_write_file = (\<lambda>p d w. (not_supported, w)),
       be_list_files = (\<lambda>p exts dup w. if p = [] then (ok, map fst files) else (not_found, [])),
       be_list_dirs = (\<lambda>p dup w. if p = [] then (ok, dirs) else (not_found, [])) \<rparr>"

definition store_backend :: "((string \<times> Blob) list) Backend" where
  "store_backend =
     \<lparr> be_exists_file = (\<lambda>p w. map_of w p \<noteq> None),
       be_exists_dir = (\<lambda>p w. p = []),
       be_read_file = (\<lambda>p w. map_of w p),
       be_write_file = (\<lambda>p d w. (ok, (p, d) # w)),
       be_list_files = (\<lambda>p exts dup w. if p = [] then (ok, map fst w) else (not_found, [])),
       be_list_dirs = (\<lambda>p dup w. if p = [] then (ok, []) else (not_found, [])) \<rparr>"

section \<open>Properties\<close>

subsection \<open>The mount table\<close>

declare unmount_loop.simps [simp del]

lemma unmount_loop_eq:
  "unmount_loop n i ms removed =
     (removed \<or> (\<exists>m \<in> set (drop i ms). mount m = n),
      take i ms @ filter (\<lambda>m. mount m \<noteq> n) (drop i ms))"
proof (induction n i ms removed rule: unmount_loop.induct)
  case (1 n i ms removed)
  show ?case
  proof (cases "i < length ms")
    case False
    then show ?thesis by (simp add: unmount_loop.simps)
  next
    case lt: True
    have d: "drop i ms = ms ! i # drop (Suc i) ms"
      using lt by (simp add: Cons_nth_drop_Suc)
    show ?thesis
    proof (cases "mount (ms ! i) = n")
      case True
      have e1: "take i (erase i ms) = take i ms"
        using lt by (simp add: erase_def)
      have e2: "drop i (erase i ms) = drop (Suc i) ms"
        using lt by (simp add: erase_def)
      have "unmount_loop n i ms removed = unmount_loop n i (erase i ms) True"
        using lt True by (subst unmount_loop.simps) simp
      also have "\<dots> = (True, take i ms @ filter (\<lambda>m. mount m \<noteq> n) (drop (Suc i) ms))"
        using "1.IH"(1) [OF lt True] by (simp add: e1 e2)
      finally show ?thesis using True by (simp add: d)
    next
      case False
      have t: "take (Suc i) ms = take i ms @ [ms ! i]"
        using lt by (simp add: take_Suc_conv_app_nth)
      have "unmount_loop n i ms removed = unmount_loop n (i + 1) ms removed"
        using lt False by (subst unmount_loop.simps) simp
      also have "\<dots> = (removed \<or> (\<exists>m \<in> set (drop (Suc i) ms). mount m = n),
                        take (Suc i) ms @ filter (\<lambda>m. mount m \<noteq> n) (drop (Suc i) ms))"
        using "1.IH"(2) [OF lt False] by simp
      finally show ?thesis using False by (simp add: d t)
    qed
  qed
qed

text \<open>
  C9. A failed mutation leaves the mount table as it was. \<^verbatim>\<open>mount\<close> returns false
  exactly for a null backend or a prefix that does not normalize, \<^verbatim>\<open>unmount\<close>
  exactly when the path does not normalize or no mount has the normalized path as its
  prefix; in each of these cases the engine after the call is the engine before it.
\<close>

theorem failed_mount_unmount_atomic:
  "(fst (Vfs_mount pf vfs path b) = False \<longleftrightarrow> b = None \<or> normalize_virtual_path pf path = None)
   \<and> (fst (Vfs_mount pf vfs path b) = False \<longrightarrow> snd (Vfs_mount pf vfs path b) = vfs)
   \<and> (fst (Vfs_unmount pf vfs path) = False \<longleftrightarrow>
        (case normalize_virtual_path pf path of
           None \<Rightarrow> True
         | Some normalized \<Rightarrow> \<forall>m \<in> set (mounts vfs). mount m \<noteq> normalized))
   \<and> (fst (Vfs_unmount pf vfs path) = False \<longrightarrow> snd (Vfs_unmount pf vfs path) = vfs)"
proof -
  have m1: "fst (Vfs_mount pf vfs path b) = False
              \<longleftrightarrow> b = None \<or> normalize_virtual_path pf path = None"
    by (simp add: Vfs_mount_def split: option.splits)
  have m2: "fst (Vfs_mount pf vfs path b) = False \<longrightarrow> snd (Vfs_mount pf vfs path b) = vfs"
    by (simp add: Vfs_mount_def split: option.splits)
  have u1: "fst (Vfs_unmount pf vfs path) = False \<longleftrightarrow>
        (case normalize_virtual_path pf path of
           None \<Rightarrow> True
         | Some normalized \<Rightarrow> \<forall>m \<in> set (mounts vfs). mount m \<noteq> normalized)"
    by (simp add: Vfs_unmount_def unmount_loop_eq split: option.splits)
  have u2: "fst (Vfs_unmount pf vfs path) = False \<longrightarrow> snd (Vfs_unmount pf vfs path) = vfs"
    by (auto simp: Vfs_unmount_def unmount_loop_eq split: option.splits)
  from m1 m2 u1 u2 show ?thesis by blast
qed

text \<open>
  A mount at a drive path on Windows and an unmount of a prefix that is not mounted both fail
  and leave the engine as it was.
\<close>

theorem failed_mount_unmount_atomic_witness:
  "fst (Vfs_mount Windows \<lparr>mounts = [\<lparr>mount = ''content'', backend = store_backend\<rparr>]\<rparr>
          ''C:/data'' (Some store_backend)) = False
   \<and> snd (Vfs_mount Windows \<lparr>mounts = [\<lparr>mount = ''content'', backend = store_backend\<rparr>]\<rparr>
            ''C:/data'' (Some store_backend))
       = \<lparr>mounts = [\<lparr>mount = ''content'', backend = store_backend\<rparr>]\<rparr>
   \<and> fst (Vfs_unmount Posix \<lparr>mounts = [\<lparr>mount = ''content'', backend = store_backend\<rparr>]\<rparr>
            ''shaders/'') = False
   \<and> snd (Vfs_unmount Posix \<lparr>mounts = [\<lparr>mount = ''content'', backend = store_backend\<rparr>]\<rparr>
            ''shaders/'')
       = \<lparr>mounts = [\<lparr>mount = ''content'', backend = store_backend\<rparr>]\<rparr>"
proof -
  have n1: "normalize_virtual_path Windows ''C:/data'' = None"
    by code_simp
  have n2: "normalize_virtual_path Posix ''shaders/'' = Some ''shaders''"
    by code_simp
  show ?thesis
    using failed_mount_unmount_atomic
            [of Windows "\<lparr>mounts = [\<lparr>mount = ''content'', backend = store_backend\<rparr>]\<rparr>"
                "''C:/data''" "Some store_backend"]
          failed_mount_unmount_atomic
            [of Posix "\<lparr>mounts = [\<lparr>mount = ''content'', backend = store_backend\<rparr>]\<rparr>"
                "''shaders/''" None]
    by (simp add: n1 n2)
qed

subsection \<open>Existence of directories\<close>

lemma mount_prefix_loop_iff:
  "mount_prefix_loop ms p \<longleftrightarrow>
     (\<exists>m \<in> set ms. mount m = p \<or>
        (length p < length (mount m) \<and> take (length p) (mount m) = p
         \<and> mount m ! length p = CHR ''/''))"
  by (induction ms) auto

text \<open>
  C6. For a path that normalizes to the virtual root, \<^verbatim>\<open>exists_dir\<close> is true exactly
  when the mount table is not empty. For a path that normalizes to a non-empty \<open>p\<close>, it is
  true whenever some mount's prefix is \<open>p\<close> or is \<open>p\<close>, a slash and more, whatever the
  backends report.
\<close>

theorem exists_dir_mount_prefixes:
  assumes "normalize_virtual_path pf path = Some p"
  shows "(p = [] \<longrightarrow> exists_dir pf vfs path w = (mounts vfs \<noteq> []))
         \<and> (p \<noteq> [] \<and> (\<exists>m \<in> set (mounts vfs).
                          mount m = p \<or> (\<exists>rest. mount m = p @ ''/'' @ rest))
              \<longrightarrow> exists_dir pf vfs path w)"
proof -
  have 1: "p = [] \<longrightarrow> exists_dir pf vfs path w = (mounts vfs \<noteq> [])"
    using assms by (simp add: exists_dir_def)
  have 2: "exists_dir pf vfs path w"
    if "p \<noteq> []" and m: "m \<in> set (mounts vfs)"
      and pre: "mount m = p \<or> (\<exists>rest. mount m = p @ ''/'' @ rest)" for m
  proof -
    have "mount m = p \<or>
        (length p < length (mount m) \<and> take (length p) (mount m) = p
         \<and> mount m ! length p = CHR ''/'')"
      using pre by (auto simp: nth_append)
    then have "mount_prefix_loop (mounts vfs) p"
      unfolding mount_prefix_loop_iff using m by blast
    then show ?thesis using assms that by (simp add: exists_dir_def)
  qed
  from 1 2 show ?thesis by blast
qed

text \<open>
  With one mount at \<^verbatim>\<open>a/b/c\<close>, the directory \<^verbatim>\<open>a/b\<close> and the root exist.
\<close>

theorem exists_dir_mount_prefixes_witness:
  "normalize_virtual_path Posix ''a//b/'' = Some ''a/b''
   \<and> exists_dir Posix \<lparr>mounts = [\<lparr>mount = ''a/b/c'', backend = readonly_backend [] []\<rparr>]\<rparr>
         ''a//b/'' ()
   \<and> normalize_virtual_path Posix ''.'' = Some ''''
   \<and> exists_dir Posix \<lparr>mounts = [\<lparr>mount = ''a/b/c'', backend = readonly_backend [] []\<rparr>]\<rparr>
         ''.'' ()"
proof -
  have n1: "normalize_virtual_path Posix ''a//b/'' = Some ''a/b''"
    by code_simp
  have n2: "normalize_virtual_path Posix ''.'' = Some ''''"
    by code_simp
  show ?thesis
    using exists_dir_mount_prefixes
            [OF n1, of "\<lparr>mounts = [\<lparr>mount = ''a/b/c'', backend = readonly_backend [] []\<rparr>]\<rparr>" "()"]
          exists_dir_mount_prefixes
            [OF n2, of "\<lparr>mounts = [\<lparr>mount = ''a/b/c'', backend = readonly_backend [] []\<rparr>]\<rparr>" "()"]
    by (simp add: n1 n2)
qed

subsection \<open>Reading\<close>

lemma read_file_loop_find:
  "read_file_loop ms n w =
     (case find (\<lambda>m. mount_read n w m \<noteq> None) ms of
        None \<Rightarrow> None
      | Some m \<Rightarrow> mount_read n w m)"
  by (induction ms) (auto simp: mount_read_def split: option.splits)

lemma read_file_loop_None:
  "read_file_loop ms n w = None \<longleftrightarrow> (\<forall>m \<in> set ms. mount_read n w m = None)"
  by (induction ms) (auto simp: mount_read_def split: option.splits)

text \<open>
  C1. For a path that normalizes, \<^verbatim>\<open>read_file\<close> returns what the first mount, going
  from the newest to the oldest, that matches the path and whose backend has the file
  reads; mounts that do not match or whose backend lacks the file are passed over. It
  reports absence exactly when no mount of the table serves the path. In particular, after
  mounting \<open>A\<close> and then \<open>B\<close> at one prefix, when both backends have the file, the
  content returned is that of \<open>B\<close>.
\<close>

theorem read_file_newest_hit:
  assumes "normalize_virtual_path pf path = Some n"
  shows "read_file pf vfs path w =
           (case find (\<lambda>m. mount_read n w m \<noteq> None) (rev (mounts vfs)) of
              None \<Rightarrow> None
            | Some m \<Rightarrow> mount_read n w m)
         \<and> (read_file pf vfs path w = None
              \<longleftrightarrow> (\<forall>m \<in> set (mounts vfs). mount_read n w m = None))
         \<and> (normalize_virtual_path pf prefix = Some p
              \<and> relative_to_mount n p = Some rel
              \<and> be_read_file A rel w = Some a \<and> be_read_file B rel w = Some b
            \<longrightarrow> read_file pf (snd (Vfs_mount pf (snd (Vfs_mount pf vfs prefix (Some A)))
                                     prefix (Some B))) path w = Some b)"
proof -
  have 1: "read_file pf vfs path w =
           (case find (\<lambda>m. mount_read n w m \<noteq> None) (rev (mounts vfs)) of
              None \<Rightarrow> None
            | Some m \<Rightarrow> mount_read n w m)"
    using assms by (simp add: read_file_def read_file_loop_find)
  have 2: "read_file pf vfs path w = None
              \<longleftrightarrow> (\<forall>m \<in> set (mounts vfs). mount_read n w m = None)"
    using assms by (simp add: read_file_def read_file_loop_None)
  have 3: "normalize_virtual_path pf prefix = Some p
              \<and> relative_to_mount n p = Some rel
              \<and> be_read_file A rel w = Some a \<and> be_read_file B rel w = Some b
            \<longrightarrow> read_file pf (snd (Vfs_mount pf (snd (Vfs_mount pf vfs prefix (Some A)))
                                     prefix (Some B))) path w = Some b"
    using assms by (simp add: read_file_def Vfs_mount_def)
  from 1 2 3 show ?thesis by blast
qed

text \<open>
  The scenario of the test: two mounts at \<^verbatim>\<open>content\<close>, both with
  \<^verbatim>\<open>hello.txt\<close>; the second one's byte is read.
\<close>

theorem read_file_newest_hit_witness:
  "normalize_virtual_path Posix ''content/./hello.txt'' = Some ''content/hello.txt''
   \<and> normalize_virtual_path Posix ''content/'' = Some ''content''
   \<and> read_file Posix
         (snd (Vfs_mount Posix
                 (snd (Vfs_mount Posix \<lparr>mounts = []\<rparr> ''content/''
                         (Some (readonly_backend [(''hello.txt'', [65])] []))))
                 ''content/''
                 (Some (readonly_backend [(''hello.txt'', [66]), (''extra.txt'', [67])] []))))
         ''content/./hello.txt'' () = Some [66]"
proof -
  have n1: "normalize_virtual_path Posix ''content/./hello.txt'' = Some ''content/hello.txt''"
    by code_simp
  have n2: "normalize_virtual_path Posix ''content/'' = Some ''content''"
    by code_simp
  have r: "relative_to_mount ''content/hello.txt'' ''content'' = Some ''hello.txt''"
    by (simp add: relative_to_mount_def)
  show ?thesis
    using read_file_newest_hit
            [OF n1, where prefix = "''content/''" and p = "''content''" and rel = "''hello.txt''"
               and A = "readonly_backend [(''hello.txt'', [65])] []"
               and B = "readonly_backend [(''hello.txt'', [66]), (''extra.txt'', [67])] []"
               and a = "[65]" and b = "[66]" and w = "()" and vfs = "\<lparr>mounts = []\<rparr>"]
    by (simp add: n1 n2 r readonly_backend_def)
qed

subsection \<open>Writing\<close>

lemma matching_mounts_Nil [simp]: "matching_mounts [] n = []"
  by (simp add: matching_mounts_def map_filter_simps)

lemma matching_mounts_Cons:
  "matching_mounts (m # ms) n =
     (case relative_to_mount n (mount m) of
        None \<Rightarrow> matching_mounts ms n
      | Some rel \<Rightarrow> (backend m, rel) # matching_mounts ms n)"
  by (simp add: matching_mounts_def map_filter_simps split: option.splits)


lemma write_file_loop_undecided:
  "write_each (matching_mounts ms n) data w = (rs, w') \<Longrightarrow> ok \<notin> set rs \<Longrightarrow> io_error \<notin> set rs \<Longrightarrow>
   write_file_loop ms n data matched lr w =
     (if matched \<or> rs \<noteq> [] then foldl (\<lambda>l r. if r \<noteq> not_supported then r else l) lr rs
      else not_found, w')"
proof (induction ms arbitrary: matched lr w rs w')
  case Nil
  then show ?case by auto
next
  case (Cons m ms)
  show ?case
  proof (cases "relative_to_mount n (mount m)")
    case None
    then show ?thesis using Cons by (simp add: matching_mounts_Cons)
  next
    case (Some rel)
    obtain r w1 where r: "be_write_file (backend m) rel data w = (r, w1)"
      by (cases "be_write_file (backend m) rel data w")
    obtain rs1 w2 where rs1: "write_each (matching_mounts ms n) data w1 = (rs1, w2)"
      by (cases "write_each (matching_mounts ms n) data w1")
    have eq: "rs = r # rs1" "w' = w2"
      using Cons.prems(1) Some r rs1 by (simp_all add: matching_mounts_Cons)
    have nd: "r \<noteq> ok" "r \<noteq> io_error" "ok \<notin> set rs1" "io_error \<notin> set rs1"
      using Cons.prems(2,3) eq by auto
    show ?thesis
      using Cons.IH [OF rs1 nd(3) nd(4), of True "if r \<noteq> not_supported then r else lr"]
        Some r nd eq by simp
  qed
qed

lemma write_file_loop_decided:
  "matching_mounts ms n = skipped @ (be, rel) # older \<Longrightarrow>
   write_each skipped data w = (rs, w1) \<Longrightarrow> ok \<notin> set rs \<Longrightarrow> io_error \<notin> set rs \<Longrightarrow>
   be_write_file be rel data w1 = (r, w2) \<Longrightarrow> r = ok \<or> r = io_error \<Longrightarrow>
   write_file_loop ms n data matched lr w = (r, w2)"
proof (induction ms arbitrary: matched lr w rs skipped)
  case Nil
  then show ?case by simp
next
  case (Cons m ms)
  show ?case
  proof (cases "relative_to_mount n (mount m)")
    case None
    then show ?thesis using Cons by (simp add: matching_mounts_Cons)
  next
    case (Some rel0)
    have mm: "(backend m, rel0) # matching_mounts ms n = skipped @ (be, rel) # older"
      using Cons.prems(1) Some by (simp add: matching_mounts_Cons)
    show ?thesis
    proof (cases skipped)
      case Nil
      then have "backend m = be" "rel0 = rel" "w1 = w"
        using mm Cons.prems(2) by auto
      then show ?thesis using Some Cons.prems(5,6) by auto
    next
      case (Cons c skipped')
      then have c: "c = (backend m, rel0)" and rest: "matching_mounts ms n = skipped' @ (be, rel) # older"
        using mm by auto
      obtain r0 w0 where r0: "be_write_file (backend m) rel0 data w = (r0, w0)"
        by (cases "be_write_file (backend m) rel0 data w")
      obtain rs' where rs': "write_each skipped' data w0 = (rs', w1)" "rs = r0 # rs'"
        using Cons.prems(2) Cons c r0 by (auto split: prod.splits)
      have nd: "r0 \<noteq> ok" "r0 \<noteq> io_error" "ok \<notin> set rs'" "io_error \<notin> set rs'"
        using Cons.prems(3,4) rs' by auto
      show ?thesis
        using Cons.IH [OF rest rs'(1) nd(3) nd(4) Cons.prems(5) Cons.prems(6)] Some r0 nd
        by simp
    qed
  qed
qed

lemma foldl_all_not_supported:
  "set rs \<subseteq> {not_supported} \<Longrightarrow> foldl (\<lambda>l r. if r \<noteq> not_supported then r else l) lr rs = lr"
  by (induction rs arbitrary: lr) auto

text \<open>
  C2. For a path that normalizes, \<^verbatim>\<open>write_file\<close> goes through the matching mounts
  from the newest to the oldest. With no matching mount the result is \<open>not_found\<close>. The
  first backend that returns \<open>ok\<close> or \<open>io_error\<close>, every newer one having returned
  something else, ends the search: its result is returned and the storage is as that write
  left it. When every matching backend returns \<open>not_supported\<close>, so does the call.
\<close>

theorem write_file_first_decisive:
  assumes "normalize_virtual_path pf path = Some n"
  shows "(matching_mounts (rev (mounts vfs)) n = []
            \<longrightarrow> write_file pf vfs path data w = (not_found, w))
         \<and> (\<forall>skipped be rel older rs w1 r w2.
              matching_mounts (rev (mounts vfs)) n = skipped @ (be, rel) # older
              \<and> write_each skipped data w = (rs, w1) \<and> ok \<notin> set rs \<and> io_error \<notin> set rs
              \<and> be_write_file be rel data w1 = (r, w2) \<and> (r = ok \<or> r = io_error)
            \<longrightarrow> write_file pf vfs path data w = (r, w2))
         \<and> (\<forall>rs w'.
              matching_mounts (rev (mounts vfs)) n \<noteq> []
              \<and> write_each (matching_mounts (rev (mounts vfs)) n) data w = (rs, w')
              \<and> set rs \<subseteq> {not_supported}
            \<longrightarrow> write_file pf vfs path data w = (not_supported, w'))"
proof -
  have wf: "write_file pf vfs path data w =
              write_file_loop (rev (mounts vfs)) n data False not_supported w"
    using assms by (simp add: write_file_def)
  have 1: "matching_mounts (rev (mounts vfs)) n = []
            \<longrightarrow> write_file pf vfs path data w = (not_found, w)"
    using write_file_loop_undecided [of "rev (mounts vfs)" n data w "[]" w False not_supported]
    by (auto simp: wf)
  have 2: "write_file pf vfs path data w = (r, w2)"
    if "matching_mounts (rev (mounts vfs)) n = skipped @ (be, rel) # older"
      "write_each skipped data w = (rs, w1)" "ok \<notin> set rs" "io_error \<notin> set rs"
      "be_write_file be rel data w1 = (r, w2)" "r = ok \<or> r = io_error"
    for skipped be rel older rs w1 r w2
    using write_file_loop_decided [OF that] by (simp add: wf)
  have 3: "write_file pf vfs path data w = (not_supported, w')"
    if ne: "matching_mounts (rev (mounts vfs)) n \<noteq> []"
      and we: "write_each (matching_mounts (rev (mounts vfs)) n) data w = (rs, w')"
      and ns: "set rs \<subseteq> {not_supported}"
    for rs w'
  proof -
    have "ok \<notin> set rs" "io_error \<notin> set rs" using ns by auto
    moreover have "rs \<noteq> []" using ne we by (cases "matching_mounts (rev (mounts vfs)) n") (auto split: prod.splits)
    ultimately show ?thesis
      using write_file_loop_undecided [OF we, of False not_supported] ns
      by (simp add: wf foldl_all_not_supported)
  qed
  from 1 2 3 show ?thesis by blast
qed

text \<open>
  A read-only backend mounted over a writable one lets the write through to the older mount;
  alone it gives \<open>not_supported\<close>; without a matching mount the result is \<open>not_found\<close>.
\<close>

theorem write_file_first_decisive_witness:
  "normalize_virtual_path Posix ''content/out.txt'' = Some ''content/out.txt''
   \<and> write_file Posix
         \<lparr>mounts = [\<lparr>mount = ''content'', backend = store_backend\<rparr>,
                    \<lparr>mount = ''content'', backend = readonly_backend [] []\<rparr>]\<rparr>
         ''content/out.txt'' [1, 2] [] = (ok, [(''out.txt'', [1, 2])])
   \<and> write_file Posix
         \<lparr>mounts = [\<lparr>mount = ''shaders'', backend = store_backend\<rparr>,
                    \<lparr>mount = ''content'', backend = readonly_backend [] []\<rparr>]\<rparr>
         ''content/out.txt'' [1, 2] [] = (not_supported, [])
   \<and> write_file Posix
         \<lparr>mounts = [\<lparr>mount = ''shaders'', backend = store_backend\<rparr>]\<rparr>
         ''content/out.txt'' [1, 2] [] = (not_found, [])"
proof -
  let ?V1 = "\<lparr>mounts = [\<lparr>mount = ''content'', backend = store_backend\<rparr>,
                    \<lparr>mount = ''content'', backend = readonly_backend [] []\<rparr>]\<rparr>"
  let ?V2 = "\<lparr>mounts = [\<lparr>mount = ''shaders'', backend = store_backend\<rparr>,
                    \<lparr>mount = ''content'', backend = readonly_backend [] []\<rparr>]\<rparr>"
  let ?V3 = "\<lparr>mounts = [\<lparr>mount = ''shaders'', backend = store_backend\<rparr>]\<rparr>"
  have n: "normalize_virtual_path Posix ''content/out.txt'' = Some ''content/out.txt''"
    by code_simp
  have m1: "matching_mounts (rev (mounts ?V1)) ''content/out.txt''
              = [(readonly_backend [] [], ''out.txt'')] @ (store_backend, ''out.txt'') # []"
    by (simp add: matching_mounts_def relative_to_mount_def)
  have m2: "matching_mounts (rev (mounts ?V2)) ''content/out.txt''
              = [(readonly_backend [] [], ''out.txt'')]"
    by (simp add: matching_mounts_def relative_to_mount_def)
  have m3: "matching_mounts (rev (mounts ?V3)) ''content/out.txt'' = []"
    by (simp add: matching_mounts_def relative_to_mount_def)
  have e1: "write_each [(readonly_backend [] [], ''out.txt'')] [1, 2] ([] :: (string \<times> Blob) list)
              = ([not_supported], [])"
    by (simp add: readonly_backend_def)
  have w1: "be_write_file store_backend ''out.txt'' [1, 2] [] = (ok, [(''out.txt'', [1, 2])])"
    by (simp add: store_backend_def)
  have 1: "write_file Posix ?V1 ''content/out.txt'' [1, 2] [] = (ok, [(''out.txt'', [1, 2])])"
    using write_file_first_decisive
            [OF n, of ?V1 "[1, 2]" "[]", THEN conjunct2, THEN conjunct1, rule_format,
             of "[(readonly_backend [] [], ''out.txt'')]" store_backend "''out.txt''" "[]"
                "[not_supported]" "[]" ok "[(''out.txt'', [1, 2])]"]
          m1 e1 w1
    by simp
  have 2: "write_file Posix ?V2 ''content/out.txt'' [1, 2] [] = (not_supported, [])"
    using write_file_first_decisive [OF n, of ?V2 "[1, 2]" "[]"] m2 e1
    by simp
  have 3: "write_file Posix ?V3 ''content/out.txt'' [1, 2] [] = (not_found, [])"
    using write_file_first_decisive [OF n, of ?V3 "[1, 2]" "[]"] m3
    by simp
  from n 1 2 3 show ?thesis by blast
qed

subsection \<open>Enumeration\<close>

lemma set_fresh: "set (fresh S xs) = set xs - S"
  by (induction xs arbitrary: S) auto

lemma distinct_fresh: "distinct (fresh S xs)"
  by (induction xs arbitrary: S) (auto simp: set_fresh)

lemma fresh_append: "fresh S (xs @ ys) = fresh S xs @ fresh (S \<union> set xs) ys"
  by (induction xs arbitrary: S) (auto simp: insert_absorb)

lemma fresh_remdups: "fresh {} xs = rev (remdups (rev xs))"
proof -
  have "fresh S xs = rev (remdups (rev (filter (\<lambda>x. x \<notin> S) xs)))" for S
  proof (induction xs arbitrary: S)
    case Nil
    then show ?case by simp
  next
    case (Cons x xs)
    have *: "filter (\<lambda>y. y \<notin> insert x S) xs = filter (\<lambda>y. y \<noteq> x) (filter (\<lambda>y. y \<notin> S) xs)"
      by (induction xs) auto
    have **: "remdups (ys @ [x]) = filter (\<lambda>y. y \<noteq> x) (remdups ys) @ [x]" for ys :: "'a list"
      by (induction ys) auto
    show ?case
      using Cons.IH [of S] Cons.IH [of "insert x S"]
      by (auto simp: * ** rev_filter remdups_filter conj_commute)
  qed
  from this [of "{}"] show ?thesis by simp
qed

lemma fold_emit:
  "fold (emit a) xs (S, out) =
     (if a then (S, out @ xs) else (S \<union> set xs, out @ fresh S xs))"
  by (induction xs arbitrary: S out) (auto simp: emit_def)

lemma matching_mounts_append:
  "matching_mounts (xs @ ys) n = matching_mounts xs n @ matching_mounts ys n"
  by (induction xs) (auto simp: matching_mounts_Cons split: option.splits)

lemma list_files_loop_eq:
  "list_files_loop ms n exts a matched st w =
     (if io_error \<in> fst ` set (file_listings ms n exts w) then io_error
      else if matched \<or> file_listings ms n exts w \<noteq> [] then ok else not_found,
      snd (fold (emit a) (concat (map snd (up_to_error (file_listings ms n exts w)))) st))"
proof (induction ms arbitrary: matched st)
  case Nil
  then show ?case by (simp add: file_listings_def)
next
  case (Cons m ms)
  show ?case
  proof (cases "relative_to_mount n (mount m)")
    case None
    then show ?thesis using Cons [of matched st]
      by (simp add: file_listings_def matching_mounts_Cons)
  next
    case (Some rel)
    obtain r names where r: "be_list_files (backend m) rel exts True w = (r, names)"
      by (cases "be_list_files (backend m) rel exts True w")
    have fl: "file_listings (m # ms) n exts w = (r, names) # file_listings ms n exts w"
      using Some r by (simp add: file_listings_def matching_mounts_Cons)
    show ?thesis
    proof (cases "r = io_error")
      case True
      then show ?thesis using Some r by (simp add: fl)
    next
      case False
      then show ?thesis
        using Some r Cons [of True "fold (emit a) names st"] by (simp add: fl)
    qed
  qed
qed

lemma list_dirs_loop_eq:
  "list_dirs_loop ms n a matched st w =
     (if io_error \<in> fst ` set (dir_listings ms n w) then io_error
      else if matched \<or> dir_listings ms n w \<noteq> []
              \<or> fst (fold (emit a) (concat (map snd (up_to_error (dir_listings ms n w)))) st) \<noteq> {}
      then ok else not_found,
      snd (fold (emit a) (concat (map snd (up_to_error (dir_listings ms n w)))) st))"
proof (induction ms arbitrary: matched st)
  case Nil
  then show ?case by (simp add: dir_listings_def)
next
  case (Cons m ms)
  show ?case
  proof (cases "relative_to_mount n (mount m)")
    case None
    then show ?thesis using Cons [of matched st]
      by (simp add: dir_listings_def matching_mounts_Cons)
  next
    case (Some rel)
    obtain r names where r: "be_list_dirs (backend m) rel True w = (r, names)"
      by (cases "be_list_dirs (backend m) rel True w")
    have fl: "dir_listings (m # ms) n w = (r, names) # dir_listings ms n w"
      using Some r by (simp add: dir_listings_def matching_mounts_Cons)
    show ?thesis
    proof (cases "r = io_error")
      case True
      then show ?thesis using Some r by (simp add: fl)
    next
      case False
      then show ?thesis
        using Some r Cons [of True "fold (emit a) names st"] by (simp add: fl)
    qed
  qed
qed

lemma child_loop_eq:
  "child_loop ms n a st = fold (emit a) (child_mounts ms n) st"
  by (induction ms arbitrary: st)
     (auto simp: child_mounts_def map_filter_simps split: option.splits)

lemma up_to_error_id: "io_error \<notin> fst ` set xs \<Longrightarrow> up_to_error xs = xs"
  by (induction xs) auto

lemma list_dirs_eq:
  assumes "normalize_virtual_path pf path = Some n"
  shows "list_dirs pf vfs path a w =
     (if io_error \<in> fst ` set (dir_listings (rev (mounts vfs)) n w) then io_error
      else if dir_listings (rev (mounts vfs)) n w \<noteq> []
              \<or> (\<not> a \<and> (child_mounts (mounts vfs) n \<noteq> []
                         \<or> concat (map snd (dir_listings (rev (mounts vfs)) n w)) \<noteq> []))
      then ok else not_found,
      let names = child_mounts (mounts vfs) n
                    @ concat (map snd (up_to_error (dir_listings (rev (mounts vfs)) n w)))
      in if a then names else first_occurrences names)"
proof -
  let ?D = "dir_listings (rev (mounts vfs)) n w"
  let ?C = "concat (map snd (up_to_error ?D))"
  have ne: "io_error \<notin> fst ` set ?D \<Longrightarrow> up_to_error ?D = ?D"
    by (rule up_to_error_id)
  show ?thesis
    using assms ne
    by (auto simp: list_dirs_def list_dirs_loop_eq child_loop_eq fold_emit Let_def
          first_occurrences_def fresh_append set_fresh simp flip: fold_append)
qed

lemma file_listings_append:
  "file_listings (xs @ ys) n exts w = file_listings xs n exts w @ file_listings ys n exts w"
  by (simp add: file_listings_def matching_mounts_append)

lemma up_to_error_append:
  "io_error \<notin> fst ` set xs \<Longrightarrow> up_to_error (xs @ ys) = xs @ up_to_error ys"
  by (induction xs) auto

lemma list_files_eq:
  assumes "normalize_virtual_path pf path = Some n"
  shows "list_files pf vfs path exts a w =
     (if io_error \<in> fst ` set (file_listings (rev (mounts vfs)) n exts w) then io_error
      else if file_listings (rev (mounts vfs)) n exts w \<noteq> [] then ok else not_found,
      if a then concat (map snd (up_to_error (file_listings (rev (mounts vfs)) n exts w)))
      else first_occurrences
             (concat (map snd (up_to_error (file_listings (rev (mounts vfs)) n exts w)))))"
  using assms by (simp add: list_files_def list_files_loop_eq fold_emit first_occurrences_def)

text \<open>
  C3. For a path that normalizes, \<^verbatim>\<open>list_files\<close> returns \<open>not_found\<close> when no
  mount matches, \<open>io_error\<close> when a matching backend reports it, and \<open>ok\<close> otherwise.
  The names the callback receives are those of the matching backends, newest mount first,
  up to and including the first backend that reports \<open>io_error\<close>: all of them with
  \<^verbatim>\<open>allow_duplicates\<close>, and the first occurrence of each without. So without an
  \<open>io_error\<close> the names are the union over all matching mounts, and without
  \<^verbatim>\<open>allow_duplicates\<close> no name comes twice.
\<close>

theorem list_files_union:
  assumes "normalize_virtual_path pf path = Some n"
  shows "fst (list_files pf vfs path exts a w) =
           (if matching_mounts (rev (mounts vfs)) n = [] then not_found
            else if io_error \<in> fst ` set (file_listings (rev (mounts vfs)) n exts w) then io_error
            else ok)
         \<and> snd (list_files pf vfs path exts a w) =
             (if a then concat (map snd (up_to_error (file_listings (rev (mounts vfs)) n exts w)))
              else first_occurrences
                     (concat (map snd (up_to_error (file_listings (rev (mounts vfs)) n exts w)))))
         \<and> (io_error \<notin> fst ` set (file_listings (rev (mounts vfs)) n exts w)
              \<longrightarrow> set (snd (list_files pf vfs path exts a w))
                    = (\<Union>l \<in> set (file_listings (rev (mounts vfs)) n exts w). set (snd l)))
         \<and> (\<not> a \<longrightarrow> distinct (snd (list_files pf vfs path exts a w)))"
proof -
  let ?L = "file_listings (rev (mounts vfs)) n exts w"
  have e: "?L = [] \<longleftrightarrow> matching_mounts (rev (mounts vfs)) n = []"
    by (simp add: file_listings_def)
  have 1: "fst (list_files pf vfs path exts a w) =
           (if matching_mounts (rev (mounts vfs)) n = [] then not_found
            else if io_error \<in> fst ` set ?L then io_error else ok)"
    using e by (auto simp: list_files_eq [OF assms])
  have 2: "snd (list_files pf vfs path exts a w) =
             (if a then concat (map snd (up_to_error ?L))
              else first_occurrences (concat (map snd (up_to_error ?L))))"
    by (simp add: list_files_eq [OF assms])
  have 3: "io_error \<notin> fst ` set ?L
              \<longrightarrow> set (snd (list_files pf vfs path exts a w)) = (\<Union>l \<in> set ?L. set (snd l))"
    by (auto simp: 2 up_to_error_id first_occurrences_def set_fresh)
  have 4: "\<not> a \<longrightarrow> distinct (snd (list_files pf vfs path exts a w))"
    by (auto simp: list_files_eq [OF assms] first_occurrences_def distinct_fresh)
  from 1 2 3 4 show ?thesis by blast
qed

text \<open>
  An overlay over \<^verbatim>\<open>content\<close> and an unrelated mount: the overlay's names come first,
  \<^verbatim>\<open>hello.txt\<close> comes once.
\<close>

theorem list_files_union_witness:
  "normalize_virtual_path Posix ''content'' = Some ''content''
   \<and> list_files Posix
         \<lparr>mounts = [\<lparr>mount = ''content'',
                      backend = readonly_backend [(''hello.txt'', [65]), (''data.txt'', [1])] []\<rparr>,
                    \<lparr>mount = ''shaders'', backend = readonly_backend [(''basic.hlsl'', [2])] []\<rparr>,
                    \<lparr>mount = ''content'',
                      backend = readonly_backend [(''overlay.txt'', [3]), (''hello.txt'', [66])] []\<rparr>]\<rparr>
         ''content'' [] False ()
       = (ok, [''overlay.txt'', ''hello.txt'', ''data.txt''])
   \<and> list_files Posix
         \<lparr>mounts = [\<lparr>mount = ''shaders'', backend = readonly_backend [(''basic.hlsl'', [2])] []\<rparr>]\<rparr>
         ''content'' [] False ()
       = (not_found, [])"
proof -
  let ?V = "\<lparr>mounts = [\<lparr>mount = ''content'',
                      backend = readonly_backend [(''hello.txt'', [65]), (''data.txt'', [1])] []\<rparr>,
                    \<lparr>mount = ''shaders'', backend = readonly_backend [(''basic.hlsl'', [2])] []\<rparr>,
                    \<lparr>mount = ''content'',
                      backend = readonly_backend [(''overlay.txt'', [3]), (''hello.txt'', [66])] []\<rparr>]\<rparr>"
  let ?W = "\<lparr>mounts = [\<lparr>mount = ''shaders'', backend = readonly_backend [(''basic.hlsl'', [2])] []\<rparr>]\<rparr>"
  have n: "normalize_virtual_path Posix ''content'' = Some ''content''"
    by code_simp
  have m: "matching_mounts (rev (mounts ?V)) ''content''
             = [(readonly_backend [(''overlay.txt'', [3]), (''hello.txt'', [66])] [], ''''),
                (readonly_backend [(''hello.txt'', [65]), (''data.txt'', [1])] [], '''')]"
    by (simp add: matching_mounts_def relative_to_mount_def)
  have l: "file_listings (rev (mounts ?V)) ''content'' [] ()
             = [(ok, [''overlay.txt'', ''hello.txt'']), (ok, [''hello.txt'', ''data.txt''])]"
    unfolding file_listings_def m by (simp add: readonly_backend_def)
  have m': "matching_mounts (rev (mounts ?W)) ''content'' = []"
    by (simp add: matching_mounts_def relative_to_mount_def)
  have l': "file_listings (rev (mounts ?W)) ''content'' [] () = []"
    unfolding file_listings_def m' by simp
  have 1: "list_files Posix ?V ''content'' [] False ()
             = (ok, [''overlay.txt'', ''hello.txt'', ''data.txt''])"
    using list_files_union [OF n, of ?V "[]" False "()", unfolded l m]
    by (simp add: prod_eq_iff first_occurrences_def)
  have 2: "list_files Posix ?W ''content'' [] False () = (not_found, [])"
    using list_files_union [OF n, of ?W "[]" False "()", unfolded l' m']
    by (simp add: prod_eq_iff first_occurrences_def)
  from n 1 2 show ?thesis by blast
qed

lemma child_mount_name_below:
  "q \<noteq> [] \<Longrightarrow> (if p = [] then rest = q else q = p @ ''/'' @ rest) \<Longrightarrow>
   child_mount_name p q = Some (takeWhile (\<lambda>c. c \<noteq> CHR ''/'') rest)"
  by (auto simp: child_mount_name_def nth_append split: if_splits)

text \<open>
  C7. For a path that normalizes to \<open>p\<close> and a mount whose non-empty prefix lies strictly
  below \<open>p\<close> (\<open>rest\<close> is the part of the prefix below \<open>p\<close>), \<^verbatim>\<open>list_dirs\<close>
  hands the first segment of \<open>rest\<close> to the callback, with or without
  \<^verbatim>\<open>allow_duplicates\<close> and whatever the backends enumerate.
\<close>

theorem list_dirs_synthetic_entry:
  assumes "normalize_virtual_path pf path = Some p"
    and "m \<in> set (mounts vfs)"
    and "mount m \<noteq> []"
    and "if p = [] then rest = mount m else mount m = p @ ''/'' @ rest"
  shows "takeWhile (\<lambda>c. c \<noteq> CHR ''/'') rest \<in> set (snd (list_dirs pf vfs path a w))"
proof -
  have "child_mount_name p (mount m) = Some (takeWhile (\<lambda>c. c \<noteq> CHR ''/'') rest)"
    using assms(3,4) by (rule child_mount_name_below)
  then have "takeWhile (\<lambda>c. c \<noteq> CHR ''/'') rest \<in> set (child_mounts (mounts vfs) p)"
    using assms(2) by (force simp: child_mounts_def List.map_filter_def)
  then show ?thesis
    by (auto simp: list_dirs_eq [OF assms(1)] Let_def first_occurrences_def set_fresh)
qed

text \<open>
  A mount at \<^verbatim>\<open>shaders\<close> shows in the root; a mount at \<^verbatim>\<open>a/b/c\<close> shows as
  \<^verbatim>\<open>b\<close> in \<^verbatim>\<open>a\<close>.
\<close>

theorem list_dirs_synthetic_entry_witness:
  "normalize_virtual_path Posix '''' = Some ''''
   \<and> ''shaders'' \<in> set (snd (list_dirs Posix
         \<lparr>mounts = [\<lparr>mount = ''shaders'', backend = readonly_backend [] []\<rparr>]\<rparr> '''' False ()))
   \<and> normalize_virtual_path Posix ''a'' = Some ''a''
   \<and> ''b'' \<in> set (snd (list_dirs Posix
         \<lparr>mounts = [\<lparr>mount = ''a/b/c'', backend = readonly_backend [] []\<rparr>]\<rparr> ''a'' True ()))"
proof -
  have n1: "normalize_virtual_path Posix '''' = Some ''''"
    by code_simp
  have n2: "normalize_virtual_path Posix ''a'' = Some ''a''"
    by code_simp
  have 1: "''shaders'' \<in> set (snd (list_dirs Posix
         \<lparr>mounts = [\<lparr>mount = ''shaders'', backend = readonly_backend [] []\<rparr>]\<rparr> '''' False ()))"
    using list_dirs_synthetic_entry
            [OF n1, of "\<lparr>mount = ''shaders'', backend = readonly_backend [] []\<rparr>"
               "\<lparr>mounts = [\<lparr>mount = ''shaders'', backend = readonly_backend [] []\<rparr>]\<rparr>"
               "''shaders''" False "()"]
    by simp
  have 2: "''b'' \<in> set (snd (list_dirs Posix
         \<lparr>mounts = [\<lparr>mount = ''a/b/c'', backend = readonly_backend [] []\<rparr>]\<rparr> ''a'' True ()))"
    using list_dirs_synthetic_entry
            [OF n2, of "\<lparr>mount = ''a/b/c'', backend = readonly_backend [] []\<rparr>"
               "\<lparr>mounts = [\<lparr>mount = ''a/b/c'', backend = readonly_backend [] []\<rparr>]\<rparr>"
               "''b/c''" True "()"]
    by simp
  from n1 n2 1 2 show ?thesis by blast
qed

text \<open>
  C10. \<^verbatim>\<open>list_files\<close> without \<^verbatim>\<open>allow_duplicates\<close>: let the mount \<open>m\<close>
  match the path and enumerate the name \<open>x\<close>, and let no mount made after \<open>m\<close>
  enumerate \<open>x\<close> or report \<open>io_error\<close>, so that \<open>m\<close> is the newest mount that
  contributes \<open>x\<close>. Then the names the callback receives are those it receives from
  the mounts made after \<open>m\<close> alone, then those added while \<open>m\<close> is enumerated, then
  the rest, and \<open>x\<close> is among the second and neither among the first nor among the
  last; the whole sequence has no name twice.
\<close>

theorem list_files_newest_occurrence:
  assumes "normalize_virtual_path pf path = Some n"
    and "mounts vfs = old @ m # new"
    and "relative_to_mount n (mount m) = Some rel"
    and "x \<in> set (snd (be_list_files (backend m) rel exts True w))"
    and "\<forall>l \<in> set (file_listings (rev new) n exts w). fst l \<noteq> io_error \<and> x \<notin> set (snd l)"
  shows "\<exists>during after.
           snd (list_files pf (vfs\<lparr>mounts := m # new\<rparr>) path exts False w)
             = snd (list_files pf (vfs\<lparr>mounts := new\<rparr>) path exts False w) @ during
         \<and> snd (list_files pf vfs path exts False w)
             = snd (list_files pf (vfs\<lparr>mounts := new\<rparr>) path exts False w) @ during @ after
         \<and> x \<notin> set (snd (list_files pf (vfs\<lparr>mounts := new\<rparr>) path exts False w))
         \<and> x \<in> set during \<and> x \<notin> set after
         \<and> distinct (snd (list_files pf vfs path exts False w))"
proof -
  let ?N = "file_listings (rev new) n exts w"
  let ?l = "be_list_files (backend m) rel exts True w"
  let ?O = "file_listings (rev old) n exts w"
  let ?CN = "concat (map snd ?N)"
  have ne: "io_error \<notin> fst ` set ?N" using assms(5) by auto
  have xn: "x \<notin> set ?CN" using assms(5) by auto
  have fm: "file_listings [m] n exts w = [?l]"
    using assms(3) by (simp add: file_listings_def matching_mounts_Cons)
  have Lnew: "up_to_error ?N = ?N" using ne by (rule up_to_error_id)
  have Lupto: "up_to_error (file_listings (rev (m # new)) n exts w) = ?N @ [?l]"
    using ne by (simp add: file_listings_append fm up_to_error_append)
  have "file_listings (rev (old @ m # new)) n exts w = ?N @ ?l # ?O"
    using fm file_listings_append [of "rev new" "m # rev old" n exts w]
      file_listings_append [of "[m]" "rev old" n exts w] by simp
  then have Lall: "up_to_error (file_listings (rev (old @ m # new)) n exts w)
                = ?N @ ?l # (if fst ?l = io_error then [] else up_to_error ?O)"
    using ne by (simp add: up_to_error_append)
  let ?rest = "concat (map snd (if fst ?l = io_error then [] else up_to_error ?O))"
  let ?during = "fresh (set ?CN) (snd ?l)"
  let ?after = "fresh (set ?CN \<union> set (snd ?l)) ?rest"
  have b: "snd (list_files pf (vfs\<lparr>mounts := new\<rparr>) path exts False w) = fresh {} ?CN"
    by (simp add: list_files_eq [OF assms(1)] Lnew first_occurrences_def)
  have u: "snd (list_files pf (vfs\<lparr>mounts := m # new\<rparr>) path exts False w)
             = fresh {} ?CN @ ?during"
    using Lupto by (simp add: list_files_eq [OF assms(1)] first_occurrences_def fresh_append)
  have f: "snd (list_files pf vfs path exts False w) = fresh {} ?CN @ ?during @ ?after"
    using Lall assms(2)
    by (simp add: list_files_eq [OF assms(1)] first_occurrences_def fresh_append)
  have d: "distinct (snd (list_files pf vfs path exts False w))"
    by (simp add: list_files_eq [OF assms(1)] first_occurrences_def distinct_fresh)
  have "x \<notin> set (fresh {} ?CN)" using xn by (simp add: set_fresh)
  moreover have "x \<in> set ?during" using xn assms(4) by (simp add: set_fresh)
  moreover have "x \<notin> set ?after" using assms(4) by (simp add: set_fresh)
  ultimately show ?thesis using b u f d by metis
qed

text \<open>
  Three mounts at \<^verbatim>\<open>content\<close>; the middle one is the newest that has
  \<^verbatim>\<open>hello.txt\<close>.
\<close>

theorem list_files_newest_occurrence_witness:
  "normalize_virtual_path Posix ''content'' = Some ''content''
   \<and> (\<exists>during after.
         snd (list_files Posix
                \<lparr>mounts = [\<lparr>mount = ''content'',
                             backend = readonly_backend [(''patch.txt'', [2]), (''hello.txt'', [66])] []\<rparr>,
                           \<lparr>mount = ''content'', backend = readonly_backend [(''mod.txt'', [3])] []\<rparr>]\<rparr>
                ''content'' [] False ())
           = snd (list_files Posix
                    \<lparr>mounts = [\<lparr>mount = ''content'', backend = readonly_backend [(''mod.txt'', [3])] []\<rparr>]\<rparr>
                    ''content'' [] False ()) @ during
         \<and> snd (list_files Posix
                \<lparr>mounts = [\<lparr>mount = ''content'', backend = readonly_backend [(''hello.txt'', [65])] []\<rparr>,
                           \<lparr>mount = ''content'',
                             backend = readonly_backend [(''patch.txt'', [2]), (''hello.txt'', [66])] []\<rparr>,
                           \<lparr>mount = ''content'', backend = readonly_backend [(''mod.txt'', [3])] []\<rparr>]\<rparr>
                ''content'' [] False ())
           = snd (list_files Posix
                    \<lparr>mounts = [\<lparr>mount = ''content'', backend = readonly_backend [(''mod.txt'', [3])] []\<rparr>]\<rparr>
                    ''content'' [] False ()) @ during @ after
         \<and> ''hello.txt'' \<in> set during \<and> ''hello.txt'' \<notin> set after)"
proof -
  let ?base = "\<lparr>mount = ''content'', backend = readonly_backend [(''hello.txt'', [65])] []\<rparr>"
  let ?patch = "\<lparr>mount = ''content'',
                  backend = readonly_backend [(''patch.txt'', [2]), (''hello.txt'', [66])] []\<rparr>"
  let ?mod = "\<lparr>mount = ''content'', backend = readonly_backend [(''mod.txt'', [3])] []\<rparr>"
  have n: "normalize_virtual_path Posix ''content'' = Some ''content''"
    by code_simp
  have s: "mounts \<lparr>mounts = [?base, ?patch, ?mod]\<rparr> = [?base] @ ?patch # [?mod]"
    by simp
  have r: "relative_to_mount ''content'' (mount ?patch) = Some ''''"
    by (simp add: relative_to_mount_def)
  have x: "''hello.txt'' \<in> set (snd (be_list_files (backend ?patch) '''' [] True ()))"
    by (simp add: readonly_backend_def)
  have m: "matching_mounts (rev [?mod]) ''content'' = [(backend ?mod, '''')]"
    by (simp add: matching_mounts_def relative_to_mount_def)
  have nw: "\<forall>l \<in> set (file_listings (rev [?mod]) ''content'' [] ()).
              fst l \<noteq> io_error \<and> ''hello.txt'' \<notin> set (snd l)"
    unfolding file_listings_def m by (simp add: readonly_backend_def)
  show ?thesis
    using list_files_newest_occurrence [OF n s r x nw] n
    by simp blast
qed

text \<open>
  C4. \<^verbatim>\<open>list_dirs\<close> decides between \<open>ok\<close> and \<open>not_found\<close> by the set
  \<^verbatim>\<open>seen\<close>, which only fills without \<^verbatim>\<open>allow_duplicates\<close>
  (\<open>list_dirs_eq\<close>). With one mount at \<^verbatim>\<open>shaders\<close> the listing of the root hands
  \<^verbatim>\<open>shaders\<close> to the callback in both modes, and returns \<open>not_found\<close> with
  \<^verbatim>\<open>allow_duplicates\<close> and \<open>ok\<close> without.
\<close>

theorem list_dirs_not_found_after_emitting:
  "list_dirs Posix \<lparr>mounts = [\<lparr>mount = ''shaders'', backend = readonly_backend [] []\<rparr>]\<rparr>
     '''' True () = (not_found, [''shaders''])
   \<and> list_dirs Posix \<lparr>mounts = [\<lparr>mount = ''shaders'', backend = readonly_backend [] []\<rparr>]\<rparr>
     '''' False () = (ok, [''shaders''])"
proof -
  have n: "normalize_virtual_path Posix '''' = Some ''''"
    by code_simp
  show ?thesis
    by (simp add: list_dirs_def n child_mount_name_def relative_to_mount_def emit_def)
qed

subsection \<open>The normalizer\<close>

lemma alternating_Nil [simp]: "alternating []"
  by (simp add: alternating_def)

lemma alternating_single [simp]: "alternating [t]"
  by (simp add: alternating_def)

lemma alternating_Cons:
  "alternating (t # ts) \<longleftrightarrow> (ts = [] \<or> ((t = Sep) \<noteq> (hd ts = Sep)) \<and> alternating ts)"
  by (simp add: alternating_def successively_Cons)

lemma alternating_Sep_Cons [simp]:
  "alternating (Sep # ts) \<longleftrightarrow> \<not> starts_with_sep ts \<and> alternating ts"
  by (cases ts rule: starts_with_sep.cases) (auto simp: alternating_Cons)

lemma alternating_Name_Cons [simp]:
  "alternating (Name n # ts) \<longleftrightarrow> (ts = [] \<or> starts_with_sep ts) \<and> alternating ts"
  by (cases ts rule: starts_with_sep.cases) (auto simp: alternating_Cons)

lemma tokenize_Nil_iff [simp]: "tokenize pf s = [] \<longleftrightarrow> s = []"
  by (cases s) (auto split: list.splits token.splits)

lemma starts_with_sep_tokenize:
  "starts_with_sep (tokenize pf s) \<longleftrightarrow> (s \<noteq> [] \<and> is_slash pf (hd s))"
  by (cases s) (auto split: list.splits token.splits)

lemma alternating_tokenize: "alternating (tokenize pf s)"
  by (induction s) (auto split: list.splits token.splits)

lemma names_tokenize:
  "\<forall>n \<in> set (names (tokenize pf s)). n \<noteq> [] \<and> (\<forall>c \<in> set n. \<not> is_slash pf c)"
proof (induction s)
  case Nil
  then show ?case by simp
next
  case (Cons c s)
  show ?case
    using Cons by (cases "tokenize pf s" rule: starts_with_sep.cases) auto
qed

lemma tokenize_name_append:
  "n \<noteq> [] \<Longrightarrow> \<forall>c \<in> set n. \<not> is_slash pf c \<Longrightarrow> s = [] \<or> is_slash pf (hd s) \<Longrightarrow>
   tokenize pf (n @ s) = Name n # tokenize pf s"
proof (induction n)
  case Nil
  then show ?case by simp
next
  case (Cons c n)
  show ?case
  proof (cases "n = []")
    case True
    have "\<not> (\<exists>m ts. tokenize pf s = Name m # ts)"
      using Cons.prems(3) starts_with_sep_tokenize [of pf s]
      by (cases "tokenize pf s" rule: starts_with_sep.cases) auto
    then show ?thesis using True Cons.prems(2)
      by (auto split: list.splits token.splits)
  next
    case False
    then show ?thesis using Cons by simp
  qed
qed

lemma tokenize_sep_Cons:
  "is_slash pf c \<Longrightarrow> s = [] \<or> \<not> is_slash pf (hd s) \<Longrightarrow> tokenize pf (c # s) = Sep # tokenize pf s"
  using starts_with_sep_tokenize [of pf s]
  by (cases "tokenize pf s" rule: starts_with_sep.cases) auto

lemma flatten_Nil_iff: "wf_tokens pf ts \<Longrightarrow> flatten sep ts = [] \<longleftrightarrow> ts = []"
  by (cases ts rule: starts_with_sep.cases) (auto simp: wf_tokens_def)

lemma hd_flatten:
  "wf_tokens pf ts \<Longrightarrow> ts \<noteq> [] \<Longrightarrow> is_slash pf sep \<Longrightarrow>
   is_slash pf (hd (flatten sep ts)) \<longleftrightarrow> starts_with_sep ts"
  by (cases ts rule: starts_with_sep.cases) (auto simp: wf_tokens_def)

lemma tokenize_flatten:
  "wf_tokens pf ts \<Longrightarrow> is_slash pf sep \<Longrightarrow> tokenize pf (flatten sep ts) = ts"
proof (induction ts rule: flatten.induct)
  case (1 sep)
  then show ?case by simp
next
  case (2 sep ts)
  then have wf: "wf_tokens pf ts" and ns: "\<not> starts_with_sep ts"
    by (auto simp: wf_tokens_def)
  have "flatten sep ts = [] \<or> \<not> is_slash pf (hd (flatten sep ts))"
    using hd_flatten [OF wf _ "2.prems"(2)] ns flatten_Nil_iff [OF wf] by blast
  then show ?case
    using 2 wf by (simp add: tokenize_sep_Cons del: tokenize.simps)
next
  case (3 sep n ts)
  then have wf: "wf_tokens pf ts" and ns: "ts = [] \<or> starts_with_sep ts"
    and n: "n \<noteq> []" "\<forall>c \<in> set n. \<not> is_slash pf c"
    by (auto simp: wf_tokens_def)
  have "flatten sep ts = [] \<or> is_slash pf (hd (flatten sep ts))"
    using hd_flatten [OF wf _ "3.prems"(2)] ns flatten_Nil_iff [OF wf] by blast
  then show ?case
    using 3 wf n by (simp add: tokenize_name_append del: tokenize.simps)
qed

lemma wf_tokens_tokenize: "wf_tokens pf (tokenize pf s)"
  using names_tokenize [of pf s] by (auto simp: wf_tokens_def alternating_tokenize)

lemma names_append [simp]: "names (xs @ ys) = names xs @ names ys"
  by (induction xs rule: names.induct) auto

lemma names_rev [simp]: "names (rev ts) = rev (names ts)"
  by (induction ts rule: names.induct) auto

lemma Name_in_set_iff: "Name n \<in> set ts \<longleftrightarrow> n \<in> set (names ts)"
  by (induction ts rule: names.induct) auto

lemma names_skip_sep [simp]: "names (skip_sep ts) = names ts"
  by (cases ts rule: skip_sep.cases) auto

lemma names_remove_filename:
  "names (remove_filename d ts) = filter (\<lambda>n. n \<noteq> d) (names ts)"
  by (induction d ts rule: remove_filename.induct) auto

lemma alternating_remove_filename:
  "alternating ts \<Longrightarrow>
   alternating (remove_filename d ts)
   \<and> (starts_with_sep (remove_filename d ts) \<longrightarrow> starts_with_sep ts)"
proof (induction d ts rule: remove_filename.induct)
  case (3 d n ts)
  then show ?case by (cases ts rule: starts_with_sep.cases) auto
qed auto

lemma remove_filename_id:
  "d \<notin> set (names ts) \<Longrightarrow> remove_filename d ts = ts"
  by (induction d ts rule: remove_filename.induct) auto

lemma climbs_above_no_dot:
  "climbs_above d (filter (\<lambda>n. n \<noteq> ''.'') ns) = climbs_above d ns"
  by (induction ns arbitrary: d) (auto split: nat.splits)

lemma remove_dir_dotdot_pop:
  "m \<noteq> ''..'' \<Longrightarrow>
   remove_dir_dotdot (Sep # Name m # kept) (Name ''..'' # ts) = remove_dir_dotdot kept (skip_sep ts)"
  by simp

lemma remove_dir_dotdot_push:
  "\<not> (\<exists>m kept'. kept = Sep # Name m # kept' \<and> n = ''..'' \<and> m \<noteq> ''..'') \<Longrightarrow>
   remove_dir_dotdot kept (Name n # ts) = remove_dir_dotdot (Name n # kept) ts"
  by (auto split: list.splits token.splits)

lemma remove_dir_dotdot_cases [case_names Nil Sep Pop Push]:
  assumes "\<And>kept. P kept []"
    and "\<And>kept ts. P (Sep # kept) ts \<Longrightarrow> P kept (Sep # ts)"
    and "\<And>m kept ts. m \<noteq> ''..'' \<Longrightarrow> P kept (skip_sep ts)
           \<Longrightarrow> P (Sep # Name m # kept) (Name ''..'' # ts)"
    and "\<And>kept n ts.
           \<not> (\<exists>m kept'. kept = Sep # Name m # kept' \<and> n = ''..'' \<and> m \<noteq> ''..'')
           \<Longrightarrow> P (Name n # kept) ts \<Longrightarrow> P kept (Name n # ts)"
  shows "P kept ts"
proof (induction "length ts" arbitrary: kept ts rule: less_induct)
  case less
  show ?case
  proof (cases ts)
    case Nil
    then show ?thesis using assms(1) by simp
  next
    case (Cons t ts')
    show ?thesis
    proof (cases t)
      case Sep
      then show ?thesis using Cons assms(2) less by simp
    next
      case (Name n)
      show ?thesis
      proof (cases "\<exists>m kept'. kept = Sep # Name m # kept' \<and> n = ''..'' \<and> m \<noteq> ''..''")
        case True
        then obtain m kept' where k: "kept = Sep # Name m # kept'" "n = ''..''" "m \<noteq> ''..''"
          by blast
        have "length (skip_sep ts') < length ts"
          using Cons length_skip_sep [of ts'] by simp
        then have "P kept' (skip_sep ts')" by (rule less)
        then show ?thesis using assms(3) k Cons Name by simp
      next
        case False
        have "P (Name n # kept) ts'" using less Cons by simp
        then show ?thesis using assms(4) [OF False] Cons Name by simp
      qed
    qed
  qed
qed

declare remove_dir_dotdot.simps(3) [simp del]

lemma remove_dir_dotdot_climbs:
  "''.'' \<notin> set (names ts) \<Longrightarrow>
   ''..'' \<in> set (names kept)
     \<or> climbs_above (length (filter (\<lambda>n. n \<noteq> ''..'') (names kept))) (names ts) \<Longrightarrow>
   ''..'' \<in> set (names (remove_dir_dotdot kept ts))"
proof (induction kept ts rule: remove_dir_dotdot_cases)
  case (Nil kept)
  then show ?case by simp
next
  case (Sep kept ts)
  then show ?case by simp
next
  case (Pop m kept ts)
  then show ?case by (simp add: remove_dir_dotdot_pop)
next
  case (Push kept n ts)
  have "''..'' \<in> set (names (Name n # kept))
         \<or> climbs_above (length (filter (\<lambda>n. n \<noteq> ''..'') (names (Name n # kept)))) (names ts)"
    using Push.prems by (auto split: if_splits nat.splits)
  then show ?case
    using Push by (simp add: remove_dir_dotdot_push)
qed

lemma remove_dir_dotdot_id:
  "''..'' \<notin> set (names ts) \<Longrightarrow> remove_dir_dotdot kept ts = rev kept @ ts"
proof (induction kept ts rule: remove_dir_dotdot_cases)
  case (Nil kept)
  then show ?case by simp
next
  case (Sep kept ts)
  then show ?case by simp
next
  case (Pop m kept ts)
  then show ?case by simp
next
  case (Push kept n ts)
  then show ?case by (simp add: remove_dir_dotdot_push)
qed

lemma names_remove_dir_dotdot:
  "set (names (remove_dir_dotdot kept ts)) \<subseteq> set (names kept) \<union> set (names ts)"
proof (induction kept ts rule: remove_dir_dotdot_cases)
  case (Nil kept)
  then show ?case by simp
next
  case (Sep kept ts)
  then show ?case by simp
next
  case (Pop m kept ts)
  then show ?case by (auto simp: remove_dir_dotdot_pop)
next
  case (Push kept n ts)
  then show ?case by (auto simp: remove_dir_dotdot_push)
qed

lemma dotdots_first_butlast: "dotdots_first (xs @ [n]) \<Longrightarrow> dotdots_first xs"
  by (induction xs) (auto split: if_splits)

lemma dotdots_first_snoc: "dotdots_first xs \<Longrightarrow> n \<noteq> ''..'' \<Longrightarrow> dotdots_first (xs @ [n])"
  by (induction xs) (auto split: if_splits)

lemma dotdots_first_all: "dotdots_first (xs @ [''..'']) \<Longrightarrow> set xs \<subseteq> {''..''}"
  by (induction xs) (auto split: if_splits)

lemma dotdots_first_replicate: "set xs \<subseteq> {''..''} \<Longrightarrow> dotdots_first xs"
  by (induction xs) auto

lemma dotdots_first_hd: "dotdots_first ns \<Longrightarrow> ''..'' \<in> set ns \<Longrightarrow> \<exists>ms. ns = ''..'' # ms"
  by (cases ns) (auto split: if_splits)

lemma alternating_rev [simp]: "alternating (rev ts) = alternating ts"
  unfolding alternating_def successively_rev
  by (rule successively_cong) auto

lemma alternating_append:
  "alternating (xs @ ys) \<longleftrightarrow>
     alternating xs \<and> alternating ys
     \<and> (xs = [] \<or> ys = [] \<or> (last xs = Sep) \<noteq> (hd ys = Sep))"
  by (simp add: alternating_def successively_append_iff)

lemma starts_with_sep_hd: "starts_with_sep ts \<longleftrightarrow> ts \<noteq> [] \<and> hd ts = Sep"
  by (cases ts rule: starts_with_sep.cases) auto

lemma starts_with_sep_append:
  "starts_with_sep (xs @ ys) \<longleftrightarrow> (if xs = [] then starts_with_sep ys else starts_with_sep xs)"
  by (cases xs rule: starts_with_sep.cases) auto

lemma dd_inv_Sep: "dd_inv kept (Sep # ts) \<Longrightarrow> dd_inv (Sep # kept) ts"
  by (simp add: dd_inv_def)

lemma dd_inv_Pop:
  assumes "dd_inv (Sep # Name m # kept) (Name n # ts)"
  shows "dd_inv kept (skip_sep ts)"
proof -
  have a: "alternating (rev kept @ Name m # Sep # Name n # ts)"
    and s: "\<not> starts_with_sep (rev kept @ Name m # Sep # Name n # ts)"
    and d: "dotdots_first (names (rev kept) @ [m])"
    using assms by (simp_all add: dd_inv_def)
  have ak: "alternating (rev kept)" and k: "kept = [] \<or> hd kept = Sep"
    and at: "alternating ts" and t: "ts = [] \<or> starts_with_sep ts"
    using a by (auto simp: alternating_append last_rev)
  have as: "alternating (skip_sep ts)" and ss: "\<not> starts_with_sep (skip_sep ts)"
    using at t by (cases ts rule: skip_sep.cases; simp)+
  have "alternating (rev kept @ skip_sep ts)"
    using ak as ss k by (auto simp: alternating_append last_rev starts_with_sep_hd)
  moreover have "\<not> starts_with_sep (rev kept @ skip_sep ts)"
    using s ss by (auto simp: starts_with_sep_append split: if_splits)
  moreover have "dotdots_first (names (rev kept))"
    using d by (simp add: dotdots_first_butlast)
  ultimately show ?thesis by (simp add: dd_inv_def)
qed

lemma dd_inv_Push:
  assumes "dd_inv kept (Name n # ts)"
    and "\<not> (\<exists>m kept'. kept = Sep # Name m # kept' \<and> n = ''..'' \<and> m \<noteq> ''..'')"
  shows "dd_inv (Name n # kept) ts"
proof -
  have a: "alternating (rev kept @ Name n # ts)"
    and s: "\<not> starts_with_sep (rev kept @ Name n # ts)"
    and d: "dotdots_first (names (rev kept))"
    using assms(1) by (simp_all add: dd_inv_def)
  have "dotdots_first (names (rev kept) @ [n])"
  proof (cases "n = ''..''")
    case False
    then show ?thesis using d by (simp add: dotdots_first_snoc)
  next
    case True
    have ak: "alternating kept" and k: "kept = [] \<or> hd kept = Sep"
      using a by (auto simp: alternating_append last_rev)
    have "set (names kept) \<subseteq> {''..''}"
    proof (cases kept)
      case Nil
      then show ?thesis by simp
    next
      case (Cons t kept1)
      then have t: "t = Sep" using k by simp
      show ?thesis
      proof (cases kept1)
        case Nil
        then show ?thesis using s Cons t by simp
      next
        case (Cons u kept2)
        then obtain m where u: "u = Name m"
          using ak \<open>kept = t # kept1\<close> t by (cases u) auto
        have "m = ''..''"
          using assms(2) True \<open>kept = t # kept1\<close> t Cons u by auto
        then have "dotdots_first (rev (names kept2) @ [''..''])"
          using d \<open>kept = t # kept1\<close> t Cons u by simp
        then have "set (rev (names kept2)) \<subseteq> {''..''}"
          by (rule dotdots_first_all)
        then show ?thesis
          using \<open>kept = t # kept1\<close> t Cons u \<open>m = ''..''\<close> by simp
      qed
    qed
    then have "set (names (rev kept) @ [n]) \<subseteq> {''..''}"
      using True by simp
    then show ?thesis by (rule dotdots_first_replicate)
  qed
  then show ?thesis using a s by (simp add: dd_inv_def)
qed

lemma remove_dir_dotdot_shape:
  "dd_inv kept ts \<Longrightarrow>
   alternating (remove_dir_dotdot kept ts)
   \<and> \<not> starts_with_sep (remove_dir_dotdot kept ts)
   \<and> dotdots_first (names (remove_dir_dotdot kept ts))"
proof (induction kept ts rule: remove_dir_dotdot_cases)
  case (Nil kept)
  then show ?case by (simp add: dd_inv_def)
next
  case (Sep kept ts)
  then show ?case by (simp add: dd_inv_Sep)
next
  case (Pop m kept ts)
  then show ?case by (simp add: remove_dir_dotdot_pop dd_inv_Pop)
next
  case (Push kept n ts)
  then show ?case by (simp add: remove_dir_dotdot_push dd_inv_Push)
qed

lemma remove_trailing_sep_cases:
  "remove_trailing_sep ts = ts
   \<or> (\<exists>xs. ts = xs @ [Name ''..'', Sep] \<and> remove_trailing_sep ts = xs @ [Name ''..''])"
proof (cases "\<exists>xs. ts = xs @ [Name ''..'', Sep]")
  case True
  then obtain xs where "ts = xs @ [Name ''..'', Sep]" by blast
  then show ?thesis by (simp add: remove_trailing_sep_def butlast_append)
next
  case False
  have "remove_trailing_sep ts = ts"
  proof (cases "rev ts")
    case Nil
    then show ?thesis by (simp add: remove_trailing_sep_def)
  next
    case (Cons a as)
    then have ts: "ts = rev as @ [a]" by (metis rev_rev_ident rev.simps(2))
    show ?thesis
    proof (cases as)
      case Nil
      then show ?thesis using Cons by (cases a) (simp_all add: remove_trailing_sep_def)
    next
      case (Cons b bs)
      then have "ts = rev bs @ [b, a]" using ts by simp
      then have "\<not> (a = Sep \<and> b = Name ''..'')" using False by blast
      then show ?thesis using \<open>rev ts = a # as\<close> Cons
        by (cases a; cases b) (auto simp: remove_trailing_sep_def)
    qed
  qed
  then show ?thesis by simp
qed

lemma names_remove_trailing_sep [simp]: "names (remove_trailing_sep ts) = names ts"
  using remove_trailing_sep_cases [of ts] by auto

lemma starts_with_sep_remove_trailing_sep [simp]:
  "starts_with_sep (remove_trailing_sep ts) = starts_with_sep ts"
  using remove_trailing_sep_cases [of ts] by (auto simp: starts_with_sep_append)

lemma remove_trailing_sep_Nil_iff [simp]: "remove_trailing_sep ts = [] \<longleftrightarrow> ts = []"
  using remove_trailing_sep_cases [of ts] by auto

lemma alternating_remove_trailing_sep:
  "alternating ts \<Longrightarrow> alternating (remove_trailing_sep ts)"
  using remove_trailing_sep_cases [of ts] by (auto simp: alternating_append)

lemma remove_trailing_sep_id:
  "''..'' \<notin> set (names ts) \<Longrightarrow> remove_trailing_sep ts = ts"
  using remove_trailing_sep_cases [of ts] by auto

lemma is_slash_preferred [simp]: "is_slash pf (preferred_separator pf)"
  by (cases pf) (auto simp: is_slash_def preferred_separator_def)

lemma root_name_end_Posix [simp]: "root_name_end Posix s = 0"
  by (simp add: root_name_end_def)

lemma root_name_end_no_slash:
  "s = [] \<or> \<not> is_slash pf (hd s) \<Longrightarrow>
   root_name_end pf s = (if pf = Windows \<and> has_drive_letter_prefix s then 2 else 0)"
  by (cases pf; cases s) (auto simp: root_name_end_def has_drive_letter_prefix_def is_slash_def
        split: list.splits)

lemma root_name_end_dotdot: "root_name_end pf (''..'' @ s) = 0"
  by (subst root_name_end_no_slash)
     (auto simp: is_slash_def backslash_def has_drive_letter_prefix_def is_drive_letter_def)

lemma first_Name:
  "ts \<noteq> [] \<Longrightarrow> \<not> starts_with_sep ts \<Longrightarrow> \<exists>r. ts = Name (hd (names ts)) # r"
  by (cases ts rule: starts_with_sep.cases) auto

lemma normal_tokens_relative:
  assumes "alternating ts" and "\<not> starts_with_sep ts"
  shows "alternating (normal_tokens ts)"
    and "\<not> starts_with_sep (normal_tokens ts)"
    and "dotdots_first (names (normal_tokens ts))"
    and "set (names (normal_tokens ts)) \<subseteq> set (names ts) - {''.''}"
    and "climbs_above 0 (names ts) \<Longrightarrow> ''..'' \<in> set (names (normal_tokens ts))"
proof -
  let ?T = "remove_dot ts"
  let ?R = "remove_dir_dotdot [] ?T"
  have aT: "alternating ?T" and sT: "\<not> starts_with_sep ?T"
    using alternating_remove_filename [OF assms(1), of "''.''"] assms(2)
    by (auto simp: remove_dot_def)
  have nT: "names ?T = filter (\<lambda>n. n \<noteq> ''.'') (names ts)"
    by (simp add: remove_dot_def names_remove_filename)
  have "dd_inv [] ?T" using aT sT by (simp add: dd_inv_def)
  then have R: "alternating ?R" "\<not> starts_with_sep ?R" "dotdots_first (names ?R)"
    using remove_dir_dotdot_shape [of "[]" ?T] by auto
  have rr: "remove_root_dotdot ?R = ?R"
    using R(2) by (cases ?R rule: starts_with_sep.cases) (auto simp: remove_root_dotdot_def)
  have nt: "normal_tokens ts = remove_trailing_sep ?R"
    by (simp add: normal_tokens_def rr)
  show "alternating (normal_tokens ts)"
    using R(1) by (simp add: nt alternating_remove_trailing_sep)
  show "\<not> starts_with_sep (normal_tokens ts)"
    using R(2) by (simp add: nt)
  show "dotdots_first (names (normal_tokens ts))"
    using R(3) by (simp add: nt)
  show "set (names (normal_tokens ts)) \<subseteq> set (names ts) - {''.''}"
    using names_remove_dir_dotdot [of "[]" ?T] by (auto simp: nt nT)
  show "''..'' \<in> set (names (normal_tokens ts))" if "climbs_above 0 (names ts)"
  proof -
    have "''.'' \<notin> set (names ?T)" by (simp add: nT)
    moreover have "climbs_above 0 (names ?T)"
      using that by (simp add: nT climbs_above_no_dot)
    ultimately have "''..'' \<in> set (names ?R)"
      using remove_dir_dotdot_climbs [of ?T "[]"] by simp
    then show ?thesis by (simp add: nt)
  qed
qed

lemma has_dotdot_part_relative:
  assumes wf: "wf_tokens pf ts" and ns: "\<not> starts_with_sep ts"
    and dd: "''..'' \<in> set (names (normal_tokens ts))"
  shows "has_dotdot_part pf (flatten (preferred_separator pf) (normal_tokens ts))"
proof -
  let ?F = "normal_tokens ts"
  have alt: "alternating ts" using wf by (simp add: wf_tokens_def)
  note nt = normal_tokens_relative [OF alt ns]
  have wfF: "wf_tokens pf ?F"
    using nt(1) nt(4) wf by (auto simp: wf_tokens_def)
  obtain ms where ms: "names ?F = ''..'' # ms"
    using dotdots_first_hd [OF nt(3) dd] by blast
  then have "?F \<noteq> []" by auto
  then obtain r where r: "?F = Name ''..'' # r"
    using first_Name [OF _ nt(2)] ms by auto
  have "flatten (preferred_separator pf) ?F = ''..'' @ flatten (preferred_separator pf) r"
    by (simp add: r)
  then have "root_name_end pf (flatten (preferred_separator pf) ?F) = 0"
    by (simp only: root_name_end_dotdot)
  moreover have "tokenize pf (flatten (preferred_separator pf) ?F) = ?F"
    using wfF by (rule tokenize_flatten) simp
  ultimately show ?thesis
    using r by (simp add: has_dotdot_part_def)
qed

lemma flatten_nonempty: "n \<in> set (names ts) \<Longrightarrow> n \<noteq> [] \<Longrightarrow> flatten sep ts \<noteq> []"
  by (induction ts rule: names.induct) auto

lemma crossing_rejected:
  assumes "\<not> has_root_directory pf s" and "crosses_above_root pf s"
  shows "normalize_virtual_path pf s = None"
proof (cases "has_root_name pf s")
  case True
  then show ?thesis by (simp add: normalize_virtual_path_def)
next
  case False
  then have k: "root_name_end pf s = 0" by (simp add: has_root_name_def)
  let ?T = "tokenize pf s"
  have cl: "climbs_above 0 (names ?T)"
    using assms(2) k by (simp add: crosses_above_root_def)
  then have ne: "s \<noteq> []" by auto
  have ns: "\<not> starts_with_sep ?T"
    using assms(1) k ne unfolding starts_with_sep_tokenize
    by (cases s) (simp_all add: has_root_directory_def)
  have wf: "wf_tokens pf ?T" by (rule wf_tokens_tokenize)
  then have alt: "alternating ?T" by (simp add: wf_tokens_def)
  have dd: "''..'' \<in> set (names (normal_tokens ?T))"
    using normal_tokens_relative(5) [OF alt ns cl] .
  have hd: "has_dotdot_part pf (flatten (preferred_separator pf) (normal_tokens ?T))"
    using has_dotdot_part_relative [OF wf ns dd] .
  have "flatten (preferred_separator pf) (normal_tokens ?T) \<noteq> []"
    using flatten_nonempty [OF dd] by simp
  then have "lexically_normal pf s = flatten (preferred_separator pf) (normal_tokens ?T)"
    using ne k by (simp add: lexically_normal_def Let_def)
  then show ?thesis using hd by (simp add: normalize_virtual_path_def Let_def)
qed

text \<open>
  C5, as the code has it. \<^verbatim>\<open>normalize_virtual_path\<close> rejects every input with a root
  name (a drive or a network name; there is none on Posix); it rejects every input without
  a root directory in which a dot-dot segment goes up from the virtual root; and it rejects
  every input whose lexically normal form still has a dot-dot element. A root directory
  alone, a leading separator, is no reason for rejection: the normalizer strips it.
\<close>

theorem normalize_rejects:
  "(has_root_name pf s \<longrightarrow> normalize_virtual_path pf s = None)
   \<and> (\<not> has_root_directory pf s \<and> crosses_above_root pf s
        \<longrightarrow> normalize_virtual_path pf s = None)
   \<and> (has_dotdot_part pf (lexically_normal pf s) \<longrightarrow> normalize_virtual_path pf s = None)"
proof -
  have 1: "has_root_name pf s \<longrightarrow> normalize_virtual_path pf s = None"
    by (simp add: normalize_virtual_path_def)
  have 2: "\<not> has_root_directory pf s \<and> crosses_above_root pf s
        \<longrightarrow> normalize_virtual_path pf s = None"
    using crossing_rejected by blast
  have 3: "has_dotdot_part pf (lexically_normal pf s) \<longrightarrow> normalize_virtual_path pf s = None"
    by (simp add: normalize_virtual_path_def Let_def)
  from 1 2 3 show ?thesis by blast
qed

text \<open>
  A drive path on Windows, a relative path that goes above the root, and a path that begins
  with a dot-dot are rejected.
\<close>

theorem normalize_rejects_witness:
  "has_root_name Windows ''C:/data'' \<and> normalize_virtual_path Windows ''C:/data'' = None
   \<and> \<not> has_root_directory Posix ''a/../../b'' \<and> crosses_above_root Posix ''a/../../b''
   \<and> normalize_virtual_path Posix ''a/../../b'' = None
   \<and> has_dotdot_part Posix (lexically_normal Posix ''../a'')
   \<and> normalize_virtual_path Posix ''../a'' = None"
proof -
  have 1: "has_root_name Windows ''C:/data''"
    by code_simp
  have 2: "\<not> has_root_directory Posix ''a/../../b''"
    by code_simp
  have 3: "crosses_above_root Posix ''a/../../b''"
    by code_simp
  have 4: "has_dotdot_part Posix (lexically_normal Posix ''../a'')"
    by code_simp
  show ?thesis
    using normalize_rejects [of Windows "''C:/data''"] normalize_rejects [of Posix "''a/../../b''"]
      normalize_rejects [of Posix "''../a''"] 1 2 3 4
    by blast
qed

text \<open>
  C5, as the claim has it, fails when the input has a root directory: the library's
  normalization drops a dot-dot that follows the root directory, so the check for a
  remaining dot-dot never sees it, and the path is clamped to the virtual root.
\<close>

theorem normalize_clamps_rooted_dotdot:
  "has_root_directory Posix ''/../a'' \<and> crosses_above_root Posix ''/../a''
   \<and> normalize_virtual_path Posix ''/../a'' = Some ''a''
   \<and> normalize_virtual_path Windows ''/../a'' = Some ''a''"
  by code_simp

subsection \<open>Normalizing twice\<close>

lemma remove_dir_dotdot_alternating:
  "alternating (rev kept @ ts) \<Longrightarrow> alternating (remove_dir_dotdot kept ts)"
proof (induction kept ts rule: remove_dir_dotdot_cases)
  case (Nil kept)
  then show ?case by simp
next
  case (Sep kept ts)
  then show ?case by simp
next
  case (Pop m kept ts)
  have a: "alternating (rev kept @ Name m # Sep # Name ''..'' # ts)"
    using Pop.prems by simp
  have ak: "alternating (rev kept)" and k: "kept = [] \<or> hd kept = Sep"
    and at: "alternating ts" and t: "ts = [] \<or> starts_with_sep ts"
    using a by (auto simp: alternating_append last_rev)
  have as: "alternating (skip_sep ts)" and ss: "\<not> starts_with_sep (skip_sep ts)"
    using at t by (cases ts rule: skip_sep.cases; simp)+
  have "alternating (rev kept @ skip_sep ts)"
    using ak as ss k by (auto simp: alternating_append last_rev starts_with_sep_hd)
  then show ?case using Pop by (simp add: remove_dir_dotdot_pop)
next
  case (Push kept n ts)
  then show ?case by (simp add: remove_dir_dotdot_push)
qed

lemma remove_dir_dotdot_rooted:
  "starts_with_sep (rev kept @ ts) \<Longrightarrow> starts_with_sep (remove_dir_dotdot kept ts)"
proof (induction kept ts rule: remove_dir_dotdot_cases)
  case (Nil kept)
  then show ?case by simp
next
  case (Sep kept ts)
  then show ?case by simp
next
  case (Pop m kept ts)
  have "kept \<noteq> []" using Pop.prems by (auto simp: starts_with_sep_append)
  then have "starts_with_sep (rev kept @ skip_sep ts)"
    using Pop.prems by (auto simp: starts_with_sep_append)
  then show ?case using Pop by (simp add: remove_dir_dotdot_pop)
next
  case (Push kept n ts)
  then show ?case by (simp add: remove_dir_dotdot_push)
qed

lemma normal_tokens_rooted:
  assumes "alternating ts" and "starts_with_sep ts"
  shows "alternating (normal_tokens ts)"
    and "set (names (normal_tokens ts)) \<subseteq> set (names ts) - {''.'', ''..''}"
proof -
  let ?T = "remove_dot ts"
  let ?R = "remove_dir_dotdot [] ?T"
  have aT: "alternating ?T"
    using alternating_remove_filename [OF assms(1), of "''.''"] by (simp add: remove_dot_def)
  have sT: "starts_with_sep ?T"
    using assms(2) by (cases ts rule: starts_with_sep.cases) (auto simp: remove_dot_def)
  have nT: "names ?T = filter (\<lambda>n. n \<noteq> ''.'') (names ts)"
    by (simp add: remove_dot_def names_remove_filename)
  have aR: "alternating ?R" using aT by (simp add: remove_dir_dotdot_alternating)
  have sR: "starts_with_sep ?R" using sT by (simp add: remove_dir_dotdot_rooted)
  have rr: "remove_root_dotdot ?R = remove_filename ''..'' ?R"
    using sR by (cases ?R rule: starts_with_sep.cases)
      (auto simp: remove_root_dotdot_def remove_dotdot_def)
  have nt: "normal_tokens ts = remove_trailing_sep (remove_filename ''..'' ?R)"
    by (simp add: normal_tokens_def rr)
  show "alternating (normal_tokens ts)"
    using alternating_remove_filename [OF aR, of "''..''"]
    by (simp add: nt alternating_remove_trailing_sep)
  show "set (names (normal_tokens ts)) \<subseteq> set (names ts) - {''.'', ''..''}"
    using names_remove_dir_dotdot [of "[]" ?T] by (auto simp: nt nT names_remove_filename)
qed

lemma accepted_tokens:
  assumes "wf_tokens pf ts"
    and "\<not> has_dotdot_part pf (flatten (preferred_separator pf) (normal_tokens ts))"
  shows "wf_tokens pf (normal_tokens ts)"
    and "''.'' \<notin> set (names (normal_tokens ts))"
    and "''..'' \<notin> set (names (normal_tokens ts))"
proof -
  have alt: "alternating ts" using assms(1) by (simp add: wf_tokens_def)
  show "wf_tokens pf (normal_tokens ts)"
    using normal_tokens_rooted [OF alt] normal_tokens_relative(1,4) [OF alt] assms(1)
    by (cases "starts_with_sep ts") (auto simp: wf_tokens_def)
  show "''.'' \<notin> set (names (normal_tokens ts))"
    using normal_tokens_rooted(2) [OF alt] normal_tokens_relative(4) [OF alt]
    by (cases "starts_with_sep ts") auto
  show "''..'' \<notin> set (names (normal_tokens ts))"
  proof (cases "starts_with_sep ts")
    case True
    then show ?thesis using normal_tokens_rooted(2) [OF alt] by auto
  next
    case False
    then show ?thesis using has_dotdot_part_relative [OF assms(1) False] assms(2) by blast
  qed
qed

lemma flatten_append [simp]: "flatten sep (xs @ ys) = flatten sep xs @ flatten sep ys"
  by (induction xs rule: names.induct) auto

lemma generic_string_flatten:
  "wf_tokens pf ts \<Longrightarrow>
   generic_string pf (flatten (preferred_separator pf) ts) = flatten (CHR ''/'') ts"
proof (induction ts rule: names.induct)
  case 1
  then show ?case by (simp add: generic_string_def)
next
  case (2 ts)
  then have "wf_tokens pf ts" by (auto simp: wf_tokens_def)
  then show ?case using 2 by (simp add: generic_string_def)
next
  case (3 n ts)
  then have wf: "wf_tokens pf ts" and n: "\<forall>c \<in> set n. \<not> is_slash pf c"
    by (auto simp: wf_tokens_def)
  have "map (\<lambda>c. if is_slash pf c then CHR ''/'' else c) n = n"
    using n by (induction n) auto
  then show ?case using 3 wf by (simp add: generic_string_def)
qed

lemma slash_is_slash [simp]: "is_slash pf (CHR ''/'')"
  by (simp add: is_slash_def)

lemma token_list_cases [case_names Nil Sep Name]:
  "(ts = [] \<Longrightarrow> P) \<Longrightarrow> (\<And>r. ts = Sep # r \<Longrightarrow> P) \<Longrightarrow> (\<And>n r. ts = Name n # r \<Longrightarrow> P) \<Longrightarrow> P"
  by (cases ts rule: names.cases) auto

lemma strip_left_Name:
  assumes "wf_tokens pf (Name n # r)"
  shows "dropWhile (\<lambda>c. c = CHR ''/'') (flatten (CHR ''/'') (Name n # r))
           = flatten (CHR ''/'') (Name n # r)"
proof -
  have "n \<noteq> []" "\<forall>c \<in> set n. \<not> is_slash pf c"
    using assms by (auto simp: wf_tokens_def)
  then have "n \<noteq> []" "hd n \<noteq> CHR ''/''"
    by (auto simp: is_slash_def dest: hd_in_set)
  then show ?thesis by (cases n) auto
qed

lemma strip_left_flatten:
  assumes "wf_tokens pf ts"
  shows "dropWhile (\<lambda>c. c = CHR ''/'') (flatten (CHR ''/'') ts)
           = flatten (CHR ''/'') (skip_sep ts)"
proof (cases ts rule: token_list_cases)
  case Nil
  then show ?thesis by simp
next
  case (Sep r)
  then have ns: "\<not> starts_with_sep r" and wf': "wf_tokens pf r"
    using assms by (auto simp: wf_tokens_def)
  show ?thesis
  proof (cases r rule: token_list_cases)
    case Nil
    then show ?thesis using Sep by simp
  next
    case (Sep r')
    then show ?thesis using ns by simp
  next
    case (Name n r')
    then show ?thesis using strip_left_Name [of pf n r'] wf' \<open>ts = Sep # r\<close> by simp
  qed
next
  case (Name n r)
  then show ?thesis using strip_left_Name [of pf n r] assms by simp
qed

lemma strip_right_Name:
  "n \<noteq> [] \<Longrightarrow> last n \<noteq> CHR ''/'' \<Longrightarrow>
   rev (dropWhile (\<lambda>c. c = CHR ''/'') (rev (xs @ n))) = xs @ n"
  by (cases n rule: rev_cases) auto

lemma strip_right_flatten:
  assumes "wf_tokens pf ts"
  shows "rev (dropWhile (\<lambda>c. c = CHR ''/'') (rev (flatten (CHR ''/'') ts)))
           = flatten (CHR ''/'') (drop_last_sep ts)"
proof -
  have nm: "rev (dropWhile (\<lambda>c. c = CHR ''/'') (rev (flatten (CHR ''/'') (us @ [Name n]))))
              = flatten (CHR ''/'') (us @ [Name n])"
    if "wf_tokens pf (us @ [Name n])" for us n
  proof -
    have "n \<noteq> []" "\<forall>c \<in> set n. \<not> is_slash pf c"
      using that by (auto simp: wf_tokens_def)
    then have "n \<noteq> []" "last n \<noteq> CHR ''/''"
      by (auto simp: is_slash_def dest: last_in_set)
    then show ?thesis using strip_right_Name [of n "flatten (CHR ''/'') us"] by simp
  qed
  show ?thesis
  proof (cases ts rule: rev_cases)
    case Nil
    then show ?thesis by (simp add: drop_last_sep_def)
  next
    case (snoc us t)
    show ?thesis
    proof (cases t)
      case (Name n)
      then show ?thesis using nm [of us n] assms snoc by (simp add: drop_last_sep_def)
    next
      case Sep
      have wfu: "wf_tokens pf us" and e: "us = [] \<or> last us \<noteq> Sep"
        using assms snoc Sep by (auto simp: wf_tokens_def alternating_append)
      have "rev (dropWhile (\<lambda>c. c = CHR ''/'') (rev (flatten (CHR ''/'') us)))
              = flatten (CHR ''/'') us"
      proof (cases us rule: rev_cases)
        case Nil
        then show ?thesis by simp
      next
        case (snoc vs u)
        then obtain n where "u = Name n" using e by (cases u) auto
        then show ?thesis using nm [of vs n] wfu snoc by simp
      qed
      then show ?thesis using snoc Sep by (simp add: drop_last_sep_def)
    qed
  qed
qed

lemma wf_tokens_skip_sep: "wf_tokens pf ts \<Longrightarrow> wf_tokens pf (skip_sep ts)"
  by (cases ts rule: token_list_cases) (auto simp: wf_tokens_def)

lemma wf_tokens_drop_last_sep: "wf_tokens pf ts \<Longrightarrow> wf_tokens pf (drop_last_sep ts)"
proof (cases ts rule: rev_cases)
  case Nil
  then show ?thesis by (simp add: drop_last_sep_def wf_tokens_def)
next
  case (snoc us t)
  assume "wf_tokens pf ts"
  then show ?thesis using snoc
    by (auto simp: drop_last_sep_def wf_tokens_def alternating_append)
qed

lemma names_drop_last_sep [simp]: "names (drop_last_sep ts) = names ts"
  by (cases ts rule: rev_cases) (auto simp: drop_last_sep_def)

lemma clean_trim:
  assumes "wf_tokens pf ts" and "''.'' \<notin> set (names ts)" and "''..'' \<notin> set (names ts)"
  shows "clean_tokens pf (drop_last_sep (skip_sep ts))"
proof -
  let ?S = "skip_sep ts"
  have wfS: "wf_tokens pf ?S" using assms(1) by (rule wf_tokens_skip_sep)
  have nsS: "\<not> starts_with_sep ?S"
    using assms(1) by (cases ts rule: token_list_cases) (auto simp: wf_tokens_def)
  have wfD: "wf_tokens pf (drop_last_sep ?S)" using wfS by (rule wf_tokens_drop_last_sep)
  have nsD: "\<not> starts_with_sep (drop_last_sep ?S)"
    using nsS by (cases ?S rule: rev_cases)
      (auto simp: drop_last_sep_def starts_with_sep_append split: if_splits)
  have lD: "drop_last_sep ?S = [] \<or> last (drop_last_sep ?S) \<noteq> Sep"
  proof (cases ?S rule: rev_cases)
    case Nil
    then show ?thesis by (simp add: drop_last_sep_def)
  next
    case (snoc us t)
    then have "alternating (us @ [t])" using wfS by (simp add: wf_tokens_def)
    then show ?thesis using snoc by (auto simp: drop_last_sep_def alternating_append)
  qed
  show ?thesis
    using wfD nsD lD assms(2,3) by (simp add: clean_tokens_def)
qed

lemma strip_slashes_flatten:
  assumes "wf_tokens pf ts"
  shows "strip_slashes (flatten (CHR ''/'') ts) = flatten (CHR ''/'') (drop_last_sep (skip_sep ts))"
  unfolding strip_slashes_def strip_left_flatten [OF assms]
  by (rule strip_right_flatten [OF wf_tokens_skip_sep [OF assms]])

lemma clean_tokens_Nil [simp]: "clean_tokens pf []"
  by (simp add: clean_tokens_def wf_tokens_def)

lemma normalize_output_clean:
  assumes "normalize_virtual_path pf p = Some q"
  shows "\<exists>G. clean_tokens pf G \<and> q = flatten (CHR ''/'') G"
proof -
  have k: "root_name_end pf p = 0"
    using assms by (auto simp: normalize_virtual_path_def has_root_name_def split: if_splits)
  let ?F = "normal_tokens (tokenize pf p)"
  let ?fl = "flatten (preferred_separator pf) ?F"
  let ?L = "lexically_normal pf p"
  have acc: "\<not> has_dotdot_part pf ?L"
    using assms by (auto simp: normalize_virtual_path_def Let_def split: if_splits)
  have q: "q = [] \<or> q = strip_slashes (generic_string pf ?L)"
    using assms by (auto simp: normalize_virtual_path_def Let_def split: if_splits)
  show ?thesis
  proof (cases "q = []")
    case True
    then show ?thesis using clean_tokens_Nil [of pf] by (metis flatten.simps(1))
  next
    case False
    then have q': "q = strip_slashes (generic_string pf ?L)" using q by blast
    have pne: "p \<noteq> []"
    proof
      assume "p = []"
      then have "?L = []" by (simp add: lexically_normal_def)
      then show False using q' False by (simp add: generic_string_def strip_slashes_def)
    qed
    have fne: "?fl \<noteq> []"
    proof
      assume "?fl = []"
      then have "?L = ''.''" using pne k by (simp add: lexically_normal_def Let_def)
      then show False
        using assms False by (simp add: normalize_virtual_path_def Let_def generic_string_def
            is_slash_def backslash_def split: if_splits)
    qed
    have L: "?L = ?fl" using pne fne k by (simp add: lexically_normal_def Let_def)
    have wfT: "wf_tokens pf (tokenize pf p)" by (rule wf_tokens_tokenize)
    note F = accepted_tokens [OF wfT acc [unfolded L]]
    have "q = flatten (CHR ''/'') (drop_last_sep (skip_sep ?F))"
      using q' L by (simp add: generic_string_flatten [OF F(1)] strip_slashes_flatten [OF F(1)])
    moreover have "clean_tokens pf (drop_last_sep (skip_sep ?F))"
      using F by (rule clean_trim)
    ultimately show ?thesis by blast
  qed
qed

lemma has_drive_letter_prefix_flatten:
  assumes "n \<noteq> []" and "sep \<noteq> CHR '':''" and "sep' \<noteq> CHR '':''"
    and "r = [] \<or> starts_with_sep r"
  shows "has_drive_letter_prefix (flatten sep (Name n # r))
           = has_drive_letter_prefix (flatten sep' (Name n # r))"
proof (cases n)
  case Nil
  then show ?thesis using assms(1) by simp
next
  case (Cons c n')
  show ?thesis
  proof (cases n')
    case Nil
    then show ?thesis using Cons assms(2-)
      by (cases r rule: token_list_cases) (auto simp: has_drive_letter_prefix_def)
  next
    case (Cons d n'')
    then show ?thesis using \<open>n = c # n'\<close> by (simp add: has_drive_letter_prefix_def)
  qed
qed

lemma normalize_clean:
  assumes G: "clean_tokens pf G" and rn: "\<not> has_root_name pf (flatten (CHR ''/'') G)"
  shows "normalize_virtual_path pf (flatten (CHR ''/'') G) = Some (flatten (CHR ''/'') G)"
proof (cases G rule: token_list_cases)
  case Nil
  then show ?thesis
    using rn by (simp add: normalize_virtual_path_def lexically_normal_def has_dotdot_part_def
        generic_string_def strip_slashes_def)
next
  case (Sep r)
  then show ?thesis using G by (simp add: clean_tokens_def)
next
  case (Name n r)
  let ?q = "flatten (CHR ''/'') G"
  let ?L = "flatten (preferred_separator pf) G"
  have wf: "wf_tokens pf G" and ns: "\<not> starts_with_sep G" and la: "last G \<noteq> Sep"
    and nd: "''.'' \<notin> set (names G)" and ndd: "''..'' \<notin> set (names G)"
    using G Name by (auto simp: clean_tokens_def)
  have n: "n \<noteq> []" "\<forall>c \<in> set n. \<not> is_slash pf c" "n \<noteq> ''.''"
    and r: "r = [] \<or> starts_with_sep r"
    using wf nd Name by (auto simp: wf_tokens_def)
  have hdn: "\<not> is_slash pf (hd n)" using n by (cases n) auto
  have qne: "?q \<noteq> []" and Lne: "?L \<noteq> []" using Name n by auto
  have hq: "hd ?q = hd n" and hL: "hd ?L = hd n" using Name n by auto
  have k: "root_name_end pf ?q = 0" using rn by (simp add: has_root_name_def)
  have tq: "tokenize pf ?q = G" using wf by (rule tokenize_flatten) simp
  have nt: "normal_tokens G = G"
    using nd ndd ns
    by (cases G rule: token_list_cases)
       (simp_all add: normal_tokens_def remove_dot_def remove_filename_id remove_dir_dotdot_id
          remove_root_dotdot_def remove_trailing_sep_id)
  have ln: "lexically_normal pf ?q = ?L"
    using qne Lne k by (simp add: lexically_normal_def Let_def tq nt)
  have sepc: "preferred_separator pf \<noteq> CHR '':''"
    by (cases pf) (simp_all add: preferred_separator_def backslash_def)
  have "has_drive_letter_prefix ?L = has_drive_letter_prefix ?q"
    unfolding Name using n(1) sepc _ r by (rule has_drive_letter_prefix_flatten) simp
  moreover have "root_name_end pf ?q = (if pf = Windows \<and> has_drive_letter_prefix ?q then 2 else 0)"
    using hdn hq by (intro root_name_end_no_slash) simp
  moreover have "root_name_end pf ?L = (if pf = Windows \<and> has_drive_letter_prefix ?L then 2 else 0)"
    using hdn hL by (intro root_name_end_no_slash) simp
  ultimately have kL: "root_name_end pf ?L = 0" using k by simp
  have tL: "tokenize pf ?L = G" using wf by (rule tokenize_flatten) simp
  have nodd: "\<not> has_dotdot_part pf ?L"
    using ndd by (simp add: has_dotdot_part_def kL tL Name_in_set_iff)
  have gs: "generic_string pf ?L = ?q" using wf by (rule generic_string_flatten)
  have nodot: "?q \<noteq> ''.''"
  proof
    assume "?q = ''.''"
    then have "n @ flatten (CHR ''/'') r = ''.''" using Name by simp
    then have "n = ''.''" using n(1) by (cases n) auto
    then show False using n(3) by simp
  qed
  have noslash: "?q \<noteq> ''/''"
    using hq hdn qne by (cases ?q) (auto simp: is_slash_def)
  have "drop_last_sep (skip_sep G) = G"
    using ns la Name by (simp add: drop_last_sep_def)
  then have st: "strip_slashes ?q = ?q"
    using strip_slashes_flatten [OF wf] by simp
  show ?thesis
    using rn nodd nodot noslash
    by (simp add: normalize_virtual_path_def Let_def ln gs st)
qed

lemma normalize_idempotent_without_root_name:
  assumes "normalize_virtual_path pf p = Some q" and "\<not> has_root_name pf q"
  shows "normalize_virtual_path pf q = Some q"
  using normalize_output_clean [OF assms(1)] normalize_clean assms(2) by blast

lemma normalize_idempotent_Posix:
  assumes "normalize_virtual_path Posix p = Some q"
  shows "normalize_virtual_path Posix q = Some q"
  using assms by (rule normalize_idempotent_without_root_name) (simp add: has_root_name_def)

text \<open>
  C8. With the root names of Windows the normalizer is not idempotent: an accepted input
  can normalize to a string that starts with a drive name, which the normalizer itself
  rejects. The check for a root name is made on the input only. By
  \<open>normalize_idempotent_without_root_name\<close> this is the only way in which a second
  normalization differs from the first, and by \<open>normalize_idempotent_Posix\<close> it does
  not happen on Posix.
\<close>

theorem normalize_output_with_root_name:
  "normalize_virtual_path Windows ''/C:/data'' = Some ''C:/data''
   \<and> normalize_virtual_path Windows ''C:/data'' = None
   \<and> normalize_virtual_path Windows ''./C:'' = Some ''C:''
   \<and> normalize_virtual_path Windows ''C:'' = None"
  by code_simp

end
